theory Spec2Isabelle
  imports Complex_Main "HOL-Library.Multiset"
begin

section \<open>The address range: the part of Python's \<open>ipaddress\<close> that \<open>bping.py\<close> calls\<close>

text \<open>
  \<open>bping.py\<close> reads a range expression with \<open>ipaddress.ip_network(text)\<close> and then uses
  \<open>network.num_addresses\<close> and \<open>network.hosts()\<close>, and \<open>str(ip)\<close> of each host. The
  definitions of this section follow the standard library (CPython 3.11, \<open>ipaddress.py\<close>)
  function by function, for text input and the default \<open>strict=True\<close>: \<open>ip_network\<close>
  tries \<open>IPv4Network\<close> and, when that fails with an \<open>AddressValueError\<close> or a
  \<open>NetmaskValueError\<close>, \<open>IPv6Network\<close>; an address with host bits set is a
  \<open>ValueError\<close> of either.

  An address is the integer the library stores (\<open>_ip\<close>), a Python \<open>int\<close>, here a \<open>nat\<close>,
  and for an IPv6 address its scope id as well.
\<close>

datatype error =
    ValueError
  | AddressValueError
  | NetmaskValueError
  | KeyError
  | IndexError
  | UnicodeEncodeError
  | OSError

datatype ip_address =
    IPv4Address nat
  | IPv6Address nat "string option"

record ip_network_obj =
  network_address :: ip_address
  prefixlen :: nat

fun int_of_ip :: "ip_address \<Rightarrow> nat" where
  \<comment> \<open>\<open>int(ip)\<close>\<close>
  "int_of_ip (IPv4Address ip) = ip"
| "int_of_ip (IPv6Address ip scope_id) = ip"

fun max_prefixlen :: "ip_address \<Rightarrow> nat" where
  "max_prefixlen (IPv4Address ip) = 32"
| "max_prefixlen (IPv6Address ip scope_id) = 128"

subsection \<open>Strings\<close>

definition digits :: string where
  "digits = ''0123456789''"

definition hex_digits :: string where
  "hex_digits = ''0123456789abcdef''"

definition isdigit :: "string \<Rightarrow> bool" where
  \<comment> \<open>\<open>s.isascii() and s.isdigit()\<close>: non-empty, decimal digits only\<close>
  "isdigit s = (s \<noteq> [] \<and> list_all (\<lambda>c. c \<in> set digits) s)"

definition digit_value :: "char \<Rightarrow> nat" where
  "digit_value c = length (takeWhile (\<lambda>d. d \<noteq> c) digits)"

definition int_of_str :: "string \<Rightarrow> nat" where
  \<comment> \<open>\<open>int(s, 10)\<close> on a string of decimal digits\<close>
  "int_of_str s = foldl (\<lambda>n c. 10 * n + digit_value c) 0 s"

definition hex_digit_value :: "char \<Rightarrow> nat" where
  \<comment> \<open>the value of a character of \<open>0123456789ABCDEFabcdef\<close>\<close>
  "hex_digit_value c =
     (if c \<in> set hex_digits then length (takeWhile (\<lambda>d. d \<noteq> c) hex_digits)
      else length (takeWhile (\<lambda>d. d \<noteq> c) ''0123456789ABCDEF''))"

definition int_of_hex :: "string \<Rightarrow> nat" where
  \<comment> \<open>\<open>int(s, 16)\<close> on a string of hexadecimal digits\<close>
  "int_of_hex s = foldl (\<lambda>n c. 16 * n + hex_digit_value c) 0 s"

fun split :: "char \<Rightarrow> string \<Rightarrow> string list" where
  \<comment> \<open>\<open>s.split(sep)\<close>: the pieces between the separators, empty pieces kept\<close>
  "split sep [] = [[]]"
| "split sep (c # cs) =
     (if c = sep then [] # split sep cs
      else (case split sep cs of
              [] \<Rightarrow> [[c]]
            | w # ws \<Rightarrow> (c # w) # ws))"

fun join :: "char \<Rightarrow> string list \<Rightarrow> string" where
  \<comment> \<open>\<open>sep.join(pieces)\<close>\<close>
  "join sep [] = []"
| "join sep [piece] = piece"
| "join sep (piece # pieces) = piece @ sep # join sep pieces"

fun str_int :: "nat \<Rightarrow> string" where
  \<comment> \<open>\<open>str(n)\<close> of a non-negative \<open>int\<close>\<close>
  "str_int n = (if n < 10 then [digits ! n] else str_int (n div 10) @ [digits ! (n mod 10)])"

declare str_int.simps [simp del]

fun str_hex :: "nat \<Rightarrow> string" where
  \<comment> \<open>\<open>'%x' % n\<close>\<close>
  "str_hex n =
     (if n < 16 then [hex_digits ! n] else str_hex (n div 16) @ [hex_digits ! (n mod 16)])"

declare str_hex.simps [simp del]

subsection \<open>IPv4\<close>

definition parse_octet :: "string \<Rightarrow> nat option" where
  "parse_octet octet_str =
     (if octet_str = [] then None
      else if \<not> isdigit octet_str then None
      else if length octet_str > 3 then None
      else if octet_str \<noteq> ''0'' \<and> hd octet_str = CHR ''0'' then None
      else (let octet_int = int_of_str octet_str
            in if octet_int > 255 then None else Some octet_int))"

definition ip_int_from_string :: "string \<Rightarrow> nat option" where
  \<comment> \<open>\<open>_BaseV4._ip_int_from_string\<close>; \<open>None\<close> is \<open>AddressValueError\<close>\<close>
  "ip_int_from_string ip_str =
     (if ip_str = [] then None
      else (case map parse_octet (split CHR ''.'' ip_str) of
              [Some a, Some b, Some c, Some d] \<Rightarrow> Some (((a * 256 + b) * 256 + c) * 256 + d)
            | _ \<Rightarrow> None))"

definition ALL_ONES :: nat where
  "ALL_ONES = 2 ^ 32 - 1"

definition prefix_from_prefix_string :: "nat \<Rightarrow> string \<Rightarrow> nat option" where
  \<comment> \<open>\<open>_prefix_from_prefix_string\<close>, with the class's \<open>_max_prefixlen\<close>; \<open>None\<close> is
      \<open>NetmaskValueError\<close>\<close>
  "prefix_from_prefix_string max_len prefixlen_str =
     (if \<not> isdigit prefixlen_str then None
      else (let p = int_of_str prefixlen_str
            in if p \<le> max_len then Some p else None))"

fun trailing_zero_bits :: "nat \<Rightarrow> nat" where
  \<comment> \<open>\<open>(~number & (number - 1)).bit_length()\<close> for a positive \<open>number\<close>\<close>
  "trailing_zero_bits number =
     (if number = 0 \<or> odd number then 0 else 1 + trailing_zero_bits (number div 2))"

declare trailing_zero_bits.simps [simp del]

definition count_righthand_zero_bits :: "nat \<Rightarrow> nat \<Rightarrow> nat" where
  "count_righthand_zero_bits number bits =
     (if number = 0 then bits else min bits (trailing_zero_bits number))"

definition prefix_from_ip_int :: "nat \<Rightarrow> nat option" where
  \<comment> \<open>the prefix length of a netmask (ones, then zeroes); \<open>None\<close> where the library
      raises \<open>ValueError\<close> because the pattern mixes zeroes and ones\<close>
  "prefix_from_ip_int ip_int =
     (let trailing_zeroes = count_righthand_zero_bits ip_int 32;
          p = 32 - trailing_zeroes;
          leading_ones = ip_int div 2 ^ trailing_zeroes;
          all_ones = 2 ^ p - 1
      in if leading_ones \<noteq> all_ones then None else Some p)"

definition prefix_from_ip_string :: "string \<Rightarrow> nat option" where
  \<comment> \<open>a netmask in dotted form, or else a hostmask (the netmask with its bits inverted)\<close>
  "prefix_from_ip_string ip_str =
     (case ip_int_from_string ip_str of
        None \<Rightarrow> None
      | Some ip_int \<Rightarrow>
          (case prefix_from_ip_int ip_int of
             Some p \<Rightarrow> Some p
           | None \<Rightarrow> prefix_from_ip_int (ALL_ONES - ip_int)))"

definition make_netmask :: "string \<Rightarrow> nat option" where
  \<comment> \<open>\<open>_BaseV4._make_netmask\<close> for text\<close>
  "make_netmask arg =
     (case prefix_from_prefix_string 32 arg of
        Some p \<Rightarrow> Some p
      | None \<Rightarrow> prefix_from_ip_string arg)"

definition IPv4Network :: "string \<Rightarrow> error + ip_network_obj" where
  "IPv4Network address =
     (let addr = split CHR ''/'' address
      in if length addr > 2 then Inl AddressValueError
         else (case ip_int_from_string (hd addr) of
                 None \<Rightarrow> Inl AddressValueError
               | Some packed \<Rightarrow>
                   (case (if length addr > 1 then make_netmask (addr ! 1) else Some 32) of
                      None \<Rightarrow> Inl NetmaskValueError
                    | Some p \<Rightarrow>
                        if packed mod 2 ^ (32 - p) \<noteq> 0 then Inl ValueError
                        else Inr \<lparr>network_address = IPv4Address packed, prefixlen = p\<rparr>)))"

definition str_v4 :: "nat \<Rightarrow> string" where
  \<comment> \<open>\<open>'.'.join(map(str, ip_int.to_bytes(4, 'big')))\<close>\<close>
  "str_v4 ip =
     str_int (ip div 256 div 256 div 256) @ ''.'' @
     str_int (ip div 256 div 256 mod 256) @ ''.'' @
     str_int (ip div 256 mod 256) @ ''.'' @
     str_int (ip mod 256)"

subsection \<open>IPv6\<close>

definition parse_hextet :: "string \<Rightarrow> nat option" where
  \<comment> \<open>\<open>int('', 16)\<close> raises, so the empty string is no hextet\<close>
  "parse_hextet hextet_str =
     (if \<not> list_all (\<lambda>c. c \<in> set ''0123456789ABCDEFabcdef'') hextet_str then None
      else if length hextet_str > 4 then None
      else if hextet_str = [] then None
      else Some (int_of_hex hextet_str))"

definition parse_hextets :: "string list \<Rightarrow> nat option" where
  \<comment> \<open>\<open>ip_int <<= 16; ip_int |= _parse_hextet(part)\<close> over the parts, from 0\<close>
  "parse_hextets parts =
     (if list_all (\<lambda>part. parse_hextet part \<noteq> None) parts
      then Some (foldl (\<lambda>ip part. ip * 2 ^ 16 + the (parse_hextet part)) 0 parts)
      else None)"

definition ip6_int_from_string :: "string \<Rightarrow> nat option" where
  \<comment> \<open>\<open>_BaseV6._ip_int_from_string\<close>; \<open>None\<close> is \<open>AddressValueError\<close>\<close>
  "ip6_int_from_string ip_str =
     (if ip_str = [] then None
      else (let parts0 = split CHR '':'' ip_str
            in if length parts0 < 3 then None
               else (case (if CHR ''.'' \<in> set (last parts0)
                           then (case ip_int_from_string (last parts0) of
                                   None \<Rightarrow> None
                                 | Some ipv4_int \<Rightarrow>
                                     Some (butlast parts0 @
                                       [str_hex (ipv4_int div 2 ^ 16 mod 2 ^ 16),
                                        str_hex (ipv4_int mod 2 ^ 16)]))
                           else Some parts0) of
                       None \<Rightarrow> None
                     | Some parts \<Rightarrow>
                         if length parts > 9 then None
                         else (case filter (\<lambda>i. parts ! i = []) [1..<length parts - 1] of
                                 [] \<Rightarrow>
                                   if length parts \<noteq> 8 then None
                                   else if hd parts = [] then None
                                   else if last parts = [] then None
                                   else parse_hextets parts
                               | [skip_index] \<Rightarrow>
                                   (let hi0 = skip_index;
                                        lo0 = length parts - skip_index - 1;
                                        parts_hi = (if hd parts = [] then hi0 - 1 else hi0);
                                        parts_lo = (if last parts = [] then lo0 - 1 else lo0)
                                    in if hd parts = [] \<and> parts_hi \<noteq> 0 then None
                                       else if last parts = [] \<and> parts_lo \<noteq> 0 then None
                                       else if 8 \<le> parts_hi + parts_lo then None
                                       else (case (parse_hextets (take parts_hi parts),
                                                   parse_hextets
                                                     (drop (length parts - parts_lo) parts)) of
                                               (Some hi, Some lo) \<Rightarrow>
                                                 Some (hi * 2 ^ (16 * (8 - (parts_hi + parts_lo)))
                                                         * 2 ^ (16 * parts_lo) + lo)
                                             | _ \<Rightarrow> None))
                               | _ \<Rightarrow> None))))"

definition split_scope_id :: "string \<Rightarrow> (string \<times> string option) option" where
  \<comment> \<open>\<open>ip_str.partition('%')\<close>; \<open>None\<close> is \<open>AddressValueError\<close>\<close>
  "split_scope_id ip_str =
     (let addr = takeWhile (\<lambda>c. c \<noteq> CHR ''%'') ip_str;
          rest = dropWhile (\<lambda>c. c \<noteq> CHR ''%'') ip_str
      in if rest = [] then Some (addr, None)
         else if tl rest = [] \<or> CHR ''%'' \<in> set (tl rest) then None
         else Some (addr, Some (tl rest)))"

definition IPv6Network :: "string \<Rightarrow> error + ip_network_obj" where
  "IPv6Network address =
     (let addr = split CHR ''/'' address
      in if length addr > 2 then Inl AddressValueError
         else (case split_scope_id (hd addr) of
                 None \<Rightarrow> Inl AddressValueError
               | Some (addr_str, scope_id) \<Rightarrow>
                   (case ip6_int_from_string addr_str of
                      None \<Rightarrow> Inl AddressValueError
                    | Some packed \<Rightarrow>
                        (case (if length addr > 1 then prefix_from_prefix_string 128 (addr ! 1)
                               else Some 128) of
                           None \<Rightarrow> Inl NetmaskValueError
                         | Some p \<Rightarrow>
                             if packed mod 2 ^ (128 - p) \<noteq> 0 then Inl ValueError
                             else Inr \<lparr>network_address = IPv6Address packed scope_id,
                                       prefixlen = p\<rparr>))))"

fun hextets_of :: "nat \<Rightarrow> nat \<Rightarrow> nat list" where
  \<comment> \<open>the last \<open>n\<close> 16-bit groups of an integer, the highest first\<close>
  "hextets_of 0 ip = []"
| "hextets_of (Suc 0) ip = [ip]"
| "hextets_of (Suc n) ip = hextets_of n (ip div 2 ^ 16) @ [ip mod 2 ^ 16]"

fun compress_step :: "int \<times> nat \<times> int \<times> nat \<Rightarrow> nat \<times> string \<Rightarrow> int \<times> nat \<times> int \<times> nat" where
  \<comment> \<open>one round of the loop of \<open>_compress_hextets\<close> over \<open>enumerate(hextets)\<close>; the state
      is \<open>(best_doublecolon_start, best_doublecolon_len, doublecolon_start, doublecolon_len)\<close>\<close>
  "compress_step (best_start, best_len, start, len) (index, hextet) =
     (if hextet = ''0''
      then (let len' = len + 1;
                start' = (if start = - 1 then int index else start)
            in if len' > best_len then (start', len', start', len')
               else (best_start, best_len, start', len'))
      else (best_start, best_len, - 1, 0))"

definition compress_hextets :: "string list \<Rightarrow> string list" where
  "compress_hextets hextets =
     (case foldl compress_step (- 1, 0, - 1, 0) (enumerate 0 hextets) of
        (best_start, best_len, start, len) \<Rightarrow>
          if best_len > 1
          then (let best_end = nat best_start + best_len
                in (if best_start = 0 then [[]] else []) @
                   take (nat best_start) hextets @ [[]] @ drop best_end hextets @
                   (if best_end = length hextets then [[]] else []))
          else hextets)"

definition str_v6 :: "nat \<Rightarrow> string" where
  \<comment> \<open>\<open>_BaseV6._string_from_ip_int\<close>\<close>
  "str_v6 ip = join CHR '':'' (compress_hextets (map str_hex (hextets_of 8 ip)))"

subsection \<open>Networks\<close>

definition ip_network :: "string \<Rightarrow> error + ip_network_obj" where
  "ip_network address =
     (case IPv4Network address of
        Inr net \<Rightarrow> Inr net
      | Inl ValueError \<Rightarrow> Inl ValueError
      | Inl e \<Rightarrow>
          (case IPv6Network address of
             Inr net \<Rightarrow> Inr net
           | Inl e' \<Rightarrow> Inl ValueError))"

definition broadcast_address :: "ip_network_obj \<Rightarrow> nat" where
  \<comment> \<open>the integer of \<open>network_address | hostmask\<close>; the host bits of a network address
      are zero\<close>
  "broadcast_address net =
     int_of_ip (network_address net) +
       (2 ^ (max_prefixlen (network_address net) - prefixlen net) - 1)"

definition num_addresses :: "ip_network_obj \<Rightarrow> nat" where
  "num_addresses net = broadcast_address net - int_of_ip (network_address net) + 1"

definition hosts :: "ip_network_obj \<Rightarrow> ip_address list" where
  \<comment> \<open>IPv4: \<open>range(network + 1, broadcast)\<close>; IPv6: \<open>range(network + 1, broadcast + 1)\<close>;
      for either, all addresses when one bit is left, and the address as it was written
      when none is\<close>
  "hosts net =
     (let network = int_of_ip (network_address net);
          broadcast = broadcast_address net
      in case network_address net of
           IPv4Address ip \<Rightarrow>
             if prefixlen net = 31 then map IPv4Address [network ..< broadcast + 1]
             else if prefixlen net = 32 then [network_address net]
             else map IPv4Address [network + 1 ..< broadcast]
         | IPv6Address ip scope_id \<Rightarrow>
             if prefixlen net = 127 then map (\<lambda>x. IPv6Address x None) [network ..< broadcast + 1]
             else if prefixlen net = 128 then [network_address net]
             else map (\<lambda>x. IPv6Address x None) [network + 1 ..< broadcast + 1])"

fun str_ip :: "ip_address \<Rightarrow> string" where
  \<comment> \<open>\<open>str(ip)\<close>\<close>
  "str_ip (IPv4Address ip) = str_v4 ip"
| "str_ip (IPv6Address ip scope_id) =
     (case scope_id of None \<Rightarrow> str_v6 ip | Some scope \<Rightarrow> str_v6 ip @ CHR ''%'' # scope)"

section \<open>Standard output\<close>

text \<open>
  The program prints to standard output in \<open>ping\<close>, in \<open>run\<close> and in \<open>scan_network\<close>.
  Every message holds Chinese text, and \<open>print\<close> raises when standard output cannot take
  it (\<open>UnicodeEncodeError\<close> under an encoding without these characters, \<open>OSError\<close> on a
  closed pipe). What \<open>print\<close> does with a message is the environment's choice: it is a
  function from the message to the exception raised, if any. A message is named by the
  statement that prints it and the values it formats.
\<close>

datatype line =
    ping_failed string
  | scan_failed error
  | scan_started nat
  | found_active string
  | progress_line nat nat
  | scan_finished nat

definition print_line :: "(line \<Rightarrow> error option) \<Rightarrow> line \<Rightarrow> line list \<Rightarrow> error + line list" where
  \<comment> \<open>\<open>print(message)\<close> after the lines \<open>out\<close>: the exception, or the lines with the new one\<close>
  "print_line print message out =
     (case print message of Some e \<Rightarrow> Inl e | None \<Rightarrow> Inr (out @ [message]))"

section \<open>The probe: \<open>ping\<close>\<close>

text \<open>
  \<open>ping(ip)\<close> runs the system's \<open>ping\<close> once through \<open>subprocess.run\<close> and looks at the
  return code. What the call does is the environment's choice: it returns a completed
  process with a return code, or raises \<open>TimeoutExpired\<close>, or raises another exception
  (the program is missing, permission is denied, ...). The environment is a function from
  the argument vector to that outcome. The first \<open>except\<close> clause returns \<open>False\<close>; the
  second prints a message and then returns \<open>False\<close>, so an exception of that \<open>print\<close>
  leaves \<open>ping\<close>. The argument is the text \<open>str(ip)\<close>.
\<close>

datatype run_outcome =
    CompletedProcess int
  | TimeoutExpired
  | OtherException

definition ping ::
  "(string list \<Rightarrow> run_outcome) \<Rightarrow> (line \<Rightarrow> error option) \<Rightarrow> string \<Rightarrow> error + bool" where
  "ping subprocess_run print ip =
     (case subprocess_run [''ping'', ''-n'', ''1'', ''-w'', ''500'', ip] of
        CompletedProcess returncode \<Rightarrow> Inr (returncode = 0)
      | TimeoutExpired \<Rightarrow> Inr False
      | OtherException \<Rightarrow>
          (case print (ping_failed ip) of
             Some e \<Rightarrow> Inl e
           | None \<Rightarrow> Inr False))"

section \<open>The sweep of the window: \<open>ScanThread\<close>\<close>

text \<open>
  A \<open>ScanThread\<close> holds the range expression, the worker count and the flag
  \<open>is_running\<close>, which the constructor sets and \<open>stop\<close> clears. Its three Qt signals are
  the events of the sweep; \<open>emitted\<close> lists them in the order of the \<open>emit\<close> calls.
\<close>

record ScanThread =
  network :: string
  max_workers :: int
  is_running :: bool

datatype signal =
    update_progress nat nat
  | update_ip_status string bool
  | scan_complete "string list" real

definition ScanThread_init :: "string \<Rightarrow> int \<Rightarrow> ScanThread" where
  "ScanThread_init net workers = \<lparr>network = net, max_workers = workers, is_running = True\<rparr>"

definition stop :: "ScanThread \<Rightarrow> ScanThread" where
  "stop self = self\<lparr>is_running := False\<rparr>"

text \<open>
  \<open>run\<close> submits one \<open>ping\<close> per host to a thread pool, all of them before it looks at any
  result, and then takes the futures from \<open>as_completed\<close>, which hands each submitted
  future to the loop once, in an order that follows the completion of the probes. For each
  future it is handed, the loop first tests the flag (line 69) and only then reads the
  result. A future is the position of its host in the submission order, and
  \<open>future_to_ip\<close> is the dictionary of the source as the list of its values.

  Which future the loop is handed next, and when the window's thread calls \<open>stop\<close>
  between the tests of the flag, are the environment's choice: a schedule lists, in the
  order in which they happen, the tests of the flag, each named by the future the loop was
  handed (\<open>Yielded\<close>), and the calls of \<open>stop\<close> (\<open>StopCalled\<close>). \<open>StopCalled\<close> before
  \<open>Yielded future\<close> says that the flag is cleared when the loop tests it for that future,
  whenever the probe itself finished; a call of \<open>stop\<close> after the test for a future and
  before the next test stands after that \<open>Yielded\<close>; \<open>StopCalled\<close> after the last
  \<open>Yielded\<close> is a call between the end of the loop and the test of line 85. Leaving the
  \<open>with\<close> block waits for every submitted probe (\<open>shutdown(wait=True)\<close>), and a schedule
  names every future, also those the loop is never handed because it was left: they stand
  for the order \<open>as_completed\<close> would have followed.

  An exception in the body of \<open>run\<close> is caught by \<open>except Exception\<close> (\<open>caught\<close>), whose
  handler prints it; an exception of that \<open>print\<close> leaves \<open>run\<close> (\<open>escaped\<close>).
\<close>

datatype sched = Yielded nat | StopCalled

record sweep =
  thread :: ScanThread
  future_to_ip :: "string list"
  active_ips :: "string list"
  processed_ips :: nat
  emitted :: "signal list"
  caught :: "error option"
  escaped :: "error option"

fun as_completed_loop ::
  "(string \<Rightarrow> error + bool) \<Rightarrow> nat \<Rightarrow> sched list \<Rightarrow> sweep \<Rightarrow> sweep" where
  "as_completed_loop result total_ips [] st = st"
| "as_completed_loop result total_ips (StopCalled # sch) st =
     as_completed_loop result total_ips sch (st\<lparr>thread := stop (thread st)\<rparr>)"
| "as_completed_loop result total_ips (Yielded future # sch) st =
     (if \<not> is_running (thread st) then st
      else if \<not> future < length (future_to_ip st) then st\<lparr>caught := Some KeyError\<rparr>
      else (let ip = future_to_ip st ! future
            in case result ip of
                 Inl e \<Rightarrow> st\<lparr>caught := Some e\<rparr>
               | Inr is_active \<Rightarrow>
                   (let active = (if is_active then active_ips st @ [ip] else active_ips st);
                        processed = processed_ips st + 1
                    in as_completed_loop result total_ips sch
                         (st\<lparr>active_ips := active,
                             processed_ips := processed,
                             emitted := emitted st @
                               [update_ip_status ip is_active,
                                update_progress processed total_ips]\<rparr>))))"

definition except_Exception :: "(line \<Rightarrow> error option) \<Rightarrow> error \<Rightarrow> sweep \<Rightarrow> sweep" where
  \<comment> \<open>the handler of \<open>run\<close>: \<open>print(f"...: {e}")\<close>\<close>
  "except_Exception print e st = st\<lparr>caught := Some e, escaped := print (scan_failed e)\<rparr>"

definition run ::
  "(string list \<Rightarrow> run_outcome) \<Rightarrow> (line \<Rightarrow> error option) \<Rightarrow> real \<Rightarrow> real \<Rightarrow> sched list \<Rightarrow>
     ScanThread \<Rightarrow> sweep" where
  \<comment> \<open>\<open>start_time\<close> and \<open>end_time\<close> are the two readings of \<open>time.time()\<close>\<close>
  "run subprocess_run print start_time end_time sch self =
     (let st0 = \<lparr>thread = self, future_to_ip = [], active_ips = [], processed_ips = 0,
                 emitted = [], caught = None, escaped = None\<rparr>
      in case ip_network (network self) of
           Inl e \<Rightarrow> except_Exception print e st0
         | Inr net \<Rightarrow>
             if max_workers self \<le> 0 then except_Exception print ValueError st0
             else (let total_ips = num_addresses net;
                       st1 = st0\<lparr>future_to_ip := map str_ip (hosts net)\<rparr>;
                       st2 = as_completed_loop (ping subprocess_run print) total_ips sch st1
                   in case caught st2 of
                        Some e \<Rightarrow> except_Exception print e st2
                      | None \<Rightarrow>
                          (let st3 = (if is_running (thread st2)
                                      then st2\<lparr>emitted := emitted st2 @
                                             [update_progress total_ips total_ips]\<rparr>
                                      else st2)
                           in st3\<lparr>emitted := emitted st3 @
                                [scan_complete (active_ips st3) (end_time - start_time)]\<rparr>)))"

subsection \<open>Starting a sweep from the window\<close>

text \<open>
  \<open>start_scan\<close> checks the range expression before it makes a thread: on a \<open>ValueError\<close>
  it shows a message box and changes nothing else. Of the window only the two buttons, the
  thread and the message box are kept; \<open>net\<close> is the text of the input field after
  \<open>strip()\<close>.
\<close>

record gui =
  scan_thread :: "ScanThread option"
  scan_button_enabled :: bool
  stop_button_enabled :: bool
  message_box :: "error option"

definition start_scan :: "string \<Rightarrow> int \<Rightarrow> gui \<Rightarrow> gui" where
  "start_scan net workers g =
     (case ip_network net of
        Inl e \<Rightarrow> g\<lparr>message_box := Some e\<rparr>
      | Inr _ \<Rightarrow> g\<lparr>scan_button_enabled := False, stop_button_enabled := True,
                   scan_thread := Some (ScanThread_init net workers)\<rparr>)"

section \<open>The sweep of the command line: \<open>scan_network\<close>\<close>

text \<open>
  \<open>scan_network\<close> has no flag and no signals: it submits the same probes, reads the
  results in submission order, prints lines and returns the list of live addresses. An
  invalid expression raises \<open>ValueError\<close> at its first line; a worker count below one
  raises it when the pool is made, after the first line is printed; an exception of a
  probe or of a \<open>print\<close> leaves the function where it arises. \<open>stdout\<close> holds the lines
  printed by then.
\<close>

record batch =
  returned :: "error + string list"
  submitted :: "string list"
  stdout :: "line list"

fun scan_results ::
  "(line \<Rightarrow> error option) \<Rightarrow> ip_address list \<Rightarrow> nat \<Rightarrow> (nat \<times> (error + bool)) list \<Rightarrow>
     string list \<times> nat \<times> line list \<Rightarrow> error option \<times> string list \<times> nat \<times> line list" where
  \<comment> \<open>the loop over \<open>enumerate(futures)\<close>, from the state \<open>(active_ips, processed_ips,
      lines printed)\<close>; the first component of the result is the exception that ended it\<close>
  "scan_results print hs total_ips [] (active, processed, out) =
     (None, active, processed, out)"
| "scan_results print hs total_ips ((i, result) # futures) (active, processed, out) =
     (if \<not> i < length hs then (Some IndexError, active, processed, out)
      else (case result of
              Inl e \<Rightarrow> (Some e, active, processed, out)
            | Inr is_active \<Rightarrow>
                (let ip = hs ! i;
                     active' = (if is_active then active @ [str_ip ip] else active)
                 in case (if is_active then print_line print (found_active (str_ip ip)) out
                          else Inr out) of
                      Inl e \<Rightarrow> (Some e, active', processed, out)
                    | Inr out' \<Rightarrow>
                        (let processed' = processed + 1
                         in case (if processed' mod 10 = 0 \<or> processed' = total_ips
                                  then print_line print (progress_line processed' total_ips) out'
                                  else Inr out') of
                              Inl e \<Rightarrow> (Some e, active', processed', out')
                            | Inr out'' \<Rightarrow>
                                scan_results print hs total_ips futures
                                  (active', processed', out'')))))"

definition scan_network ::
  "(string list \<Rightarrow> run_outcome) \<Rightarrow> (line \<Rightarrow> error option) \<Rightarrow> string \<Rightarrow> int \<Rightarrow> batch" where
  "scan_network subprocess_run print net_text workers =
     (case ip_network net_text of
        Inl e \<Rightarrow> \<lparr>returned = Inl e, submitted = [], stdout = []\<rparr>
      | Inr net \<Rightarrow>
          (let total_ips = num_addresses net
           in case print_line print (scan_started total_ips) [] of
                Inl e \<Rightarrow> \<lparr>returned = Inl e, submitted = [], stdout = []\<rparr>
              | Inr out0 \<Rightarrow>
                  if workers \<le> 0
                  then \<lparr>returned = Inl ValueError, submitted = [], stdout = out0\<rparr>
                  else (let ips = map str_ip (hosts net);
                            futures = map (ping subprocess_run print) ips
                        in case scan_results print (hosts net) total_ips (enumerate 0 futures)
                                  ([], 0, out0) of
                             (Some e, active, processed, out) \<Rightarrow>
                               \<lparr>returned = Inl e, submitted = ips, stdout = out\<rparr>
                           | (None, active, processed, out) \<Rightarrow>
                               (case print_line print (scan_finished (length active)) out of
                                  Inl e \<Rightarrow> \<lparr>returned = Inl e, submitted = ips, stdout = out\<rparr>
                                | Inr out' \<Rightarrow>
                                    \<lparr>returned = Inr active, submitted = ips,
                                     stdout = out'\<rparr>))))"

section \<open>Schedules\<close>

text \<open>
  What a schedule says, in the words the theorems use: the futures it names, in order
  (\<open>completions\<close>); those named before the first call of \<open>stop\<close>, for which the loop
  finds the flag set (\<open>handled\<close>); and whether it is an order in which \<open>as_completed\<close>
  hands out \<open>n\<close> submitted futures, each of \<open>0, ..., n - 1\<close> once (\<open>as_completed_order\<close>).
  Of the futures the loop handles, it folds the results up to the first probe that raised
  (\<open>folded\<close>), and that exception ends the loop (\<open>raised\<close>).
\<close>

fun completions :: "sched list \<Rightarrow> nat list" where
  "completions [] = []"
| "completions (StopCalled # sch) = completions sch"
| "completions (Yielded future # sch) = future # completions sch"

fun handled :: "sched list \<Rightarrow> nat list" where
  "handled [] = []"
| "handled (StopCalled # sch) = []"
| "handled (Yielded future # sch) = future # handled sch"

definition as_completed_order :: "nat \<Rightarrow> sched list \<Rightarrow> bool" where
  "as_completed_order n sch = (sort (completions sch) = [0..<n])"

fun folded :: "(string \<Rightarrow> error + bool) \<Rightarrow> string list \<Rightarrow> nat list \<Rightarrow> nat list" where
  "folded result ips [] = []"
| "folded result ips (future # futures) =
     (case result (ips ! future) of
        Inl e \<Rightarrow> []
      | Inr is_active \<Rightarrow> future # folded result ips futures)"

fun raised :: "(string \<Rightarrow> error + bool) \<Rightarrow> string list \<Rightarrow> nat list \<Rightarrow> error option" where
  "raised result ips [] = None"
| "raised result ips (future # futures) =
     (case result (ips ! future) of
        Inl e \<Rightarrow> Some e
      | Inr is_active \<Rightarrow> raised result ips futures)"

definition result_signals ::
  "(string \<Rightarrow> error + bool) \<Rightarrow> nat \<Rightarrow> nat \<Rightarrow> string list \<Rightarrow> signal list" where
  \<comment> \<open>for the addresses \<open>ips\<close>, handled in this order after \<open>processed\<close> earlier ones:
      the result of each and then the count that includes it\<close>
  "result_signals result total_ips processed ips =
     concat (map (\<lambda>(k, ip). [update_ip_status ip (result ip = Inr True),
                              update_progress (k + 1) total_ips])
               (enumerate processed ips))"

fun is_scan_complete :: "signal \<Rightarrow> bool" where
  "is_scan_complete (scan_complete active elapsed_time) = True"
| "is_scan_complete (update_progress current total_ips) = False"
| "is_scan_complete (update_ip_status ip is_active) = False"

fun status_ips :: "signal list \<Rightarrow> string list" where
  \<comment> \<open>the addresses of the \<open>update_ip_status\<close> signals, in order\<close>
  "status_ips [] = []"
| "status_ips (update_ip_status ip is_active # es) = ip # status_ips es"
| "status_ips (update_progress current total_ips # es) = status_ips es"
| "status_ips (scan_complete active elapsed_time # es) = status_ips es"

section \<open>Reading the text of an IPv6 address back\<close>

text \<open>
  Two notions that only the proofs use: how a compressed list of hextets is expanded
  again, and what the loop that looks for the longest run of zero hextets maintains.
\<close>

definition expand_hextets :: "string list \<Rightarrow> string list" where
  \<comment> \<open>reading a compressed list of hextets back: the empty pieces stand for as many
      \<open>0\<close> as are missing from eight\<close>
  "expand_hextets pieces =
     (let given = filter (\<lambda>piece. piece \<noteq> []) pieces;
          before = length (takeWhile (\<lambda>piece. piece \<noteq> []) pieces)
      in take before given @ replicate (8 - length given) ''0'' @ drop before given)"

definition compress_inv :: "string list \<Rightarrow> nat \<Rightarrow> int \<times> nat \<times> int \<times> nat \<Rightarrow> bool" where
  \<comment> \<open>what the loop of \<open>_compress_hextets\<close> knows after \<open>k\<close> rounds: both runs lie in the
      part read so far and hold only \<open>0\<close>, and the current run ends at \<open>k\<close>\<close>
  "compress_inv hextets k st =
     (case st of (best_start, best_len, start, len) \<Rightarrow>
        (best_len = 0 \<or>
           (0 \<le> best_start \<and> nat best_start + best_len \<le> k \<and>
            (\<forall>i<best_len. hextets ! (nat best_start + i) = ''0''))) \<and>
        (if len = 0 then start = - 1
         else 0 \<le> start \<and> nat start + len = k \<and>
              (\<forall>i<len. hextets ! (nat start + i) = ''0'')))"

section \<open>The text of an address determines the address\<close>

text \<open>
  The sweep reports hosts by \<open>str(ip)\<close>. Two different addresses of one family have
  different texts. For IPv4: a decimal numeral determines its number and holds no dot, so
  the four octets can be read back from the dotted text. For IPv6: a hexadecimal numeral
  determines its number and holds no colon, so the pieces between the colons can be read
  back; the loop of \<open>_compress_hextets\<close> replaces a run of hextets \<open>0\<close> only, which lies
  inside the eight, so the eight hextets can be read back from the pieces.
\<close>

lemma digits_nth_in: "d < 10 \<Longrightarrow> digits ! d \<in> set digits"
  by (rule nth_mem) (simp add: digits_def)

lemma digits_no_dot: "c \<in> set digits \<Longrightarrow> c \<noteq> CHR ''.''"
  by (auto simp: digits_def)

lemma distinct_digits: "distinct digits"
  by (simp add: digits_def)

lemma digits_nth_inj: "a < 10 \<Longrightarrow> b < 10 \<Longrightarrow> digits ! a = digits ! b \<Longrightarrow> a = b"
  using distinct_digits by (simp add: nth_eq_iff_index_eq digits_def)

lemma str_int_digits: "set (str_int n) \<subseteq> set digits"
proof (induction n rule: str_int.induct)
  case (1 n)
  show ?case
  proof (cases "n < 10")
    case True
    then show ?thesis by (simp add: str_int.simps [of n] digits_nth_in)
  next
    case False
    have "n mod 10 < 10" by simp
    then have "digits ! (n mod 10) \<in> set digits" by (rule digits_nth_in)
    with False 1 show ?thesis by (simp add: str_int.simps [of n])
  qed
qed

lemma str_int_no_dot: "CHR ''.'' \<notin> set (str_int n)"
  using str_int_digits [of n] digits_no_dot by blast

lemma str_int_nonempty: "str_int n \<noteq> []"
  by (simp add: str_int.simps [of n])

lemma str_int_inj: "str_int n = str_int m \<Longrightarrow> n = m"
proof (induction n arbitrary: m rule: str_int.induct)
  case (1 n)
  show ?case
  proof (cases "n < 10")
    case n: True
    show ?thesis
    proof (cases "m < 10")
      case True
      with n "1.prems" show ?thesis
        by (simp add: str_int.simps [of n] str_int.simps [of m] digits_nth_inj)
    next
      case False
      with n "1.prems" show ?thesis
        using str_int_nonempty [of "m div 10"]
        by (simp add: str_int.simps [of n] str_int.simps [of m])
    qed
  next
    case n: False
    show ?thesis
    proof (cases "m < 10")
      case True
      with n "1.prems" show ?thesis
        using str_int_nonempty [of "n div 10"]
        by (simp add: str_int.simps [of n] str_int.simps [of m])
    next
      case False
      with n "1.prems" have eq: "str_int (n div 10) = str_int (m div 10)"
        and d: "digits ! (n mod 10) = digits ! (m mod 10)"
        by (simp_all add: str_int.simps [of n] str_int.simps [of m])
      from n eq have "n div 10 = m div 10" by (rule "1.IH")
      moreover from d have "n mod 10 = m mod 10" by (simp add: digits_nth_inj)
      ultimately show ?thesis by (metis div_mult_mod_eq)
    qed
  qed
qed

lemma hex_digits_nth_in: "d < 16 \<Longrightarrow> hex_digits ! d \<in> set hex_digits"
  by (rule nth_mem) (simp add: hex_digits_def)

lemma hex_digits_no_colon: "c \<in> set hex_digits \<Longrightarrow> c \<noteq> CHR '':''"
  by (auto simp: hex_digits_def)

lemma distinct_hex_digits: "distinct hex_digits"
  by (simp add: hex_digits_def)

lemma hex_digits_nth_inj:
  "a < 16 \<Longrightarrow> b < 16 \<Longrightarrow> hex_digits ! a = hex_digits ! b \<Longrightarrow> a = b"
  using distinct_hex_digits by (simp add: nth_eq_iff_index_eq hex_digits_def)

lemma str_hex_digits: "set (str_hex n) \<subseteq> set hex_digits"
proof (induction n rule: str_hex.induct)
  case (1 n)
  show ?case
  proof (cases "n < 16")
    case True
    then have "hex_digits ! n \<in> set hex_digits" by (rule hex_digits_nth_in)
    with True show ?thesis by (simp add: str_hex.simps [of n])
  next
    case False
    have "n mod 16 < 16" by simp
    then have "hex_digits ! (n mod 16) \<in> set hex_digits" by (rule hex_digits_nth_in)
    with False 1 show ?thesis by (simp add: str_hex.simps [of n])
  qed
qed

lemma str_hex_no_colon: "CHR '':'' \<notin> set (str_hex n)"
  using str_hex_digits [of n] hex_digits_no_colon by blast

lemma str_hex_nonempty: "str_hex n \<noteq> []"
  by (simp add: str_hex.simps [of n])

lemma str_hex_inj: "str_hex n = str_hex m \<Longrightarrow> n = m"
proof (induction n arbitrary: m rule: str_hex.induct)
  case (1 n)
  show ?case
  proof (cases "n < 16")
    case n: True
    show ?thesis
    proof (cases "m < 16")
      case True
      with n "1.prems" show ?thesis
        by (simp add: str_hex.simps [of n] str_hex.simps [of m] hex_digits_nth_inj)
    next
      case False
      with n "1.prems" show ?thesis
        using str_hex_nonempty [of "m div 16"]
        by (simp add: str_hex.simps [of n] str_hex.simps [of m])
    qed
  next
    case n: False
    show ?thesis
    proof (cases "m < 16")
      case True
      with n "1.prems" show ?thesis
        using str_hex_nonempty [of "n div 16"]
        by (simp add: str_hex.simps [of n] str_hex.simps [of m])
    next
      case False
      with n "1.prems" have eq: "str_hex (n div 16) = str_hex (m div 16)"
        and d: "hex_digits ! (n mod 16) = hex_digits ! (m mod 16)"
        by (simp_all add: str_hex.simps [of n] str_hex.simps [of m])
      from n eq have "n div 16 = m div 16" by (rule "1.IH")
      moreover from d have "n mod 16 = m mod 16" by (simp add: hex_digits_nth_inj)
      ultimately show ?thesis by (metis div_mult_mod_eq)
    qed
  qed
qed

lemma str_hex_0: "str_hex 0 = ''0''"
  by (simp add: str_hex.simps [of 0] hex_digits_def)

lemma str_hex_eq_0: "str_hex n = ''0'' \<longleftrightarrow> n = 0"
  using str_hex_inj [of n 0] by (auto simp: str_hex_0)

lemma hextets_of_inj: "hextets_of n a = hextets_of n b \<Longrightarrow> 0 < n \<Longrightarrow> a = b"
proof (induction n a arbitrary: b rule: hextets_of.induct)
  case (1 ip)
  then show ?case by simp
next
  case (2 ip)
  then show ?case by simp
next
  case (3 v ip)
  from "3.prems" have "hextets_of (Suc v) (ip div 2 ^ 16) = hextets_of (Suc v) (b div 2 ^ 16)"
    and m: "ip mod 2 ^ 16 = b mod 2 ^ 16" by simp_all
  then have "ip div 2 ^ 16 = b div 2 ^ 16" using "3.IH" by simp
  with m show ?case by (metis div_mult_mod_eq)
qed

lemma length_hextets_of: "length (hextets_of n ip) = n"
  by (induction n ip rule: hextets_of.induct) simp_all

lemma split_single: "sep \<notin> set piece \<Longrightarrow> split sep piece = [piece]"
  by (induction piece) auto

lemma split_append: "sep \<notin> set piece \<Longrightarrow> split sep (piece @ sep # rest) = piece # split sep rest"
proof (induction piece)
  case Nil
  show ?case by simp
next
  case (Cons c piece)
  then show ?case by auto
qed

lemma split_join:
  "pieces \<noteq> [] \<Longrightarrow> \<forall>piece \<in> set pieces. sep \<notin> set piece \<Longrightarrow>
     split sep (join sep pieces) = pieces"
proof (induction sep pieces rule: join.induct)
  case (1 sep)
  then show ?case by simp
next
  case (2 sep piece)
  then show ?case by (simp add: split_single)
next
  case (3 sep piece v va)
  then show ?case by (simp add: split_append)
qed

lemma compress_inv_step:
  assumes "compress_inv hs k st" and "k < length hs"
  shows "compress_inv hs (Suc k) (compress_step st (k, hs ! k))"
proof -
  obtain best_start best_len start len where st: "st = (best_start, best_len, start, len)"
    by (cases st) auto
  show ?thesis
  proof (cases "hs ! k = ''0''")
    case False
    with assms(1) show ?thesis
      by (auto simp: st compress_inv_def)
  next
    case zero: True
    show ?thesis
    proof (cases "len = 0")
      case True
      with assms(1) zero show ?thesis
        by (auto simp: st compress_inv_def Let_def)
    next
      case False
      with assms(1) have s: "0 \<le> start" "nat start + len = k"
        and z: "\<forall>i<len. hs ! (nat start + i) = ''0''"
        by (simp_all add: st compress_inv_def)
      have z': "\<forall>i<Suc len. hs ! (nat start + i) = ''0''"
        using z zero s(2) by (auto simp: less_Suc_eq)
      from s have ne: "start \<noteq> - 1" by simp
      with assms(1) False s z' show ?thesis
        by (auto simp: st compress_inv_def Let_def)
    qed
  qed
qed

lemma compress_inv_fold:
  "n \<le> length hs \<Longrightarrow>
     compress_inv hs n (foldl compress_step (- 1, 0, - 1, 0) (enumerate 0 (take n hs)))"
proof (induction n)
  case 0
  show ?case by (simp add: compress_inv_def)
next
  case (Suc n)
  then have n: "n < length hs" by simp
  then have t: "take (Suc n) hs = take n hs @ [hs ! n]" by (simp add: take_Suc_conv_app_nth)
  from n have l: "length (take n hs) = n" by simp
  from Suc have "compress_inv hs n (foldl compress_step (- 1, 0, - 1, 0) (enumerate 0 (take n hs)))"
    by simp
  then have "compress_inv hs (Suc n)
      (compress_step (foldl compress_step (- 1, 0, - 1, 0) (enumerate 0 (take n hs))) (n, hs ! n))"
    using n by (rule compress_inv_step)
  moreover have "min (length hs) n = n" using n by simp
  ultimately show ?case by (simp add: t enumerate_append_eq)
qed

lemma compress_hextets_cases:
  obtains (same) "compress_hextets hs = hs"
  | (run) best_start best_len where "1 < best_len" "best_start + best_len \<le> length hs"
      "\<forall>i<best_len. hs ! (best_start + i) = ''0''"
      "compress_hextets hs =
         (if best_start = 0 then [[]] else []) @ take best_start hs @ [[]] @
         drop (best_start + best_len) hs @
         (if best_start + best_len = length hs then [[]] else [])"
proof -
  obtain bs bl s l where f: "foldl compress_step (- 1, 0, - 1, 0) (enumerate 0 hs) = (bs, bl, s, l)"
    by (cases "foldl compress_step (- 1, 0, - 1, 0) (enumerate 0 hs)") auto
  have inv: "compress_inv hs (length hs) (bs, bl, s, l)"
    using compress_inv_fold [of "length hs" hs] by (simp add: f)
  show thesis
  proof (cases "1 < bl")
    case False
    then have "compress_hextets hs = hs" by (simp add: compress_hextets_def f)
    then show thesis by (rule same)
  next
    case True
    with inv have b: "0 \<le> bs" "nat bs + bl \<le> length hs" "\<forall>i<bl. hs ! (nat bs + i) = ''0''"
      by (auto simp: compress_inv_def)
    from b(1) have z: "bs = 0 \<longleftrightarrow> nat bs = 0" by auto
    have "compress_hextets hs =
         (if nat bs = 0 then [[]] else []) @ take (nat bs) hs @ [[]] @
         drop (nat bs + bl) hs @
         (if nat bs + bl = length hs then [[]] else [])"
      using True by (simp add: compress_hextets_def f Let_def z)
    with True b(2,3) show thesis by (rule run)
  qed
qed

lemma compress_hextets_pieces:
  "set (compress_hextets hs) \<subseteq> insert [] (set hs)"
proof (cases hs rule: compress_hextets_cases)
  case same
  then show ?thesis by auto
next
  case (run best_start best_len)
  have "set (take best_start hs) \<subseteq> set hs" by (rule set_take_subset)
  moreover have "set (drop (best_start + best_len) hs) \<subseteq> set hs" by (rule set_drop_subset)
  ultimately show ?thesis unfolding run(4) by auto
qed

lemma compress_hextets_nonempty: "hs \<noteq> [] \<Longrightarrow> compress_hextets hs \<noteq> []"
  by (cases hs rule: compress_hextets_cases) auto

lemma expand_compress_hextets:
  assumes len: "length hs = 8" and ne: "\<forall>h \<in> set hs. h \<noteq> []"
  shows "expand_hextets (compress_hextets hs) = hs"
proof (cases hs rule: compress_hextets_cases)
  case same
  from ne have f: "filter (\<lambda>piece. piece \<noteq> []) hs = hs" by (simp add: filter_id_conv)
  from ne have t: "takeWhile (\<lambda>piece. piece \<noteq> []) hs = hs" by (simp add: takeWhile_eq_all_conv)
  show ?thesis by (simp add: same expand_hextets_def f t len)
next
  case (run b n)
  let ?c = "compress_hextets hs"
  let ?P = "\<lambda>piece::string. piece \<noteq> []"
  have tk: "\<forall>h \<in> set (take b hs). h \<noteq> []" using ne set_take_subset [of b hs] by blast
  have dr: "\<forall>h \<in> set (drop (b + n) hs). h \<noteq> []" using ne set_drop_subset [of "b + n" hs] by blast
  have given: "filter ?P ?c = take b hs @ drop (b + n) hs"
    unfolding run(4) using tk dr by (simp add: filter_id_conv)
  have before: "takeWhile ?P ?c = take b hs"
  proof (cases "b = 0")
    case True
    then show ?thesis unfolding run(4) by simp
  next
    case False
    have "takeWhile ?P (take b hs @ [] # (drop (b + n) hs @
        (if b + n = length hs then [[]] else []))) = take b hs"
      using tk by (subst takeWhile_append2) auto
    with False show ?thesis unfolding run(4) by simp
  qed
  from run(2) have lb: "length (take b hs) = b" by simp
  have lg: "length (take b hs @ drop (b + n) hs) = 8 - n" using run(2) len by simp
  have n8: "8 - (8 - n) = n" using run(2) len by simp
  have mid: "replicate n ''0'' = take n (drop b hs)"
  proof (rule nth_equalityI)
    show "length (replicate n ''0'') = length (take n (drop b hs))" using run(2) by simp
  next
    fix i assume "i < length (replicate n ''0'')"
    then have i: "i < n" by simp
    with run(3) have "hs ! (b + i) = ''0''" by simp
    with i run(2) show "replicate n ''0'' ! i = take n (drop b hs) ! i" by simp
  qed
  have tb: "take b (take b hs @ drop (b + n) hs) = take b hs" using lb by simp
  have db: "drop b (take b hs @ drop (b + n) hs) = drop (b + n) hs" using lb by simp
  have "expand_hextets ?c = take b hs @ replicate n ''0'' @ drop (b + n) hs"
    unfolding expand_hextets_def Let_def given before lb lg n8 tb db ..
  also have "\<dots> = take b hs @ (take n (drop b hs) @ drop n (drop b hs))"
    by (simp add: mid add.commute)
  also have "\<dots> = hs" by (simp only: append_take_drop_id)
  finally show ?thesis .
qed

lemma str_v6_inj: "str_v6 a = str_v6 b \<Longrightarrow> a = b"
proof -
  assume eq: "str_v6 a = str_v6 b"
  let ?h = "\<lambda>ip. map str_hex (hextets_of 8 ip)"
  have nc: "\<forall>piece \<in> set (compress_hextets (?h ip)). CHR '':'' \<notin> set piece" for ip
    using compress_hextets_pieces [of "?h ip"] str_hex_no_colon by auto
  have "length (?h ip) = 8" for ip by (simp add: length_hextets_of)
  then have "?h ip \<noteq> []" for ip by (metis length_0_conv zero_neq_numeral)
  then have nn: "compress_hextets (?h ip) \<noteq> []" for ip
    by (rule compress_hextets_nonempty)
  have "split CHR '':'' (str_v6 a) = split CHR '':'' (str_v6 b)" using eq by simp
  then have "compress_hextets (?h a) = compress_hextets (?h b)"
    by (simp add: str_v6_def split_join [OF nn nc])
  then have "expand_hextets (compress_hextets (?h a)) = expand_hextets (compress_hextets (?h b))"
    by simp
  moreover have "expand_hextets (compress_hextets (?h ip)) = ?h ip" for ip
    by (rule expand_compress_hextets) (auto simp: length_hextets_of str_hex_nonempty)
  ultimately have "?h a = ?h b" by simp
  then have "hextets_of 8 a = hextets_of 8 b"
    by (simp add: inj_map_eq_map inj_on_def str_hex_inj)
  then show "a = b" by (rule hextets_of_inj) simp
qed

lemma dot_split_unique:
  assumes "a @ CHR ''.'' # b = a' @ CHR ''.'' # b'"
    and "CHR ''.'' \<notin> set a" and "CHR ''.'' \<notin> set a'"
  shows "a = a' \<and> b = b'"
proof -
  have "takeWhile (\<lambda>c. c \<noteq> CHR ''.'') (a @ CHR ''.'' # b) = a"
    using assms(2) by (subst takeWhile_append2) auto
  moreover have "takeWhile (\<lambda>c. c \<noteq> CHR ''.'') (a' @ CHR ''.'' # b') = a'"
    using assms(3) by (subst takeWhile_append2) auto
  ultimately have "a = a'" using assms(1) by simp
  with assms(1) show ?thesis by simp
qed

lemma str_v4_inj: "str_v4 a = str_v4 b \<Longrightarrow> a = b"
proof -
  assume eq: "str_v4 a = str_v4 b"
  let ?o1 = "\<lambda>x::nat. x div 256 div 256 div 256"
  let ?o2 = "\<lambda>x::nat. x div 256 div 256 mod 256"
  let ?o3 = "\<lambda>x::nat. x div 256 mod 256"
  let ?o4 = "\<lambda>x::nat. x mod 256"
  from eq have e1: "str_int (?o1 a) @ CHR ''.'' # (str_int (?o2 a) @ CHR ''.'' # (str_int (?o3 a) @ CHR ''.'' # str_int (?o4 a)))
     = str_int (?o1 b) @ CHR ''.'' # (str_int (?o2 b) @ CHR ''.'' # (str_int (?o3 b) @ CHR ''.'' # str_int (?o4 b)))"
    by (simp add: str_v4_def)
  from dot_split_unique [OF e1 str_int_no_dot str_int_no_dot]
  have s1: "str_int (?o1 a) = str_int (?o1 b)"
    and e2: "str_int (?o2 a) @ CHR ''.'' # (str_int (?o3 a) @ CHR ''.'' # str_int (?o4 a))
     = str_int (?o2 b) @ CHR ''.'' # (str_int (?o3 b) @ CHR ''.'' # str_int (?o4 b))"
    by simp_all
  from dot_split_unique [OF e2 str_int_no_dot str_int_no_dot]
  have s2: "str_int (?o2 a) = str_int (?o2 b)"
    and e3: "str_int (?o3 a) @ CHR ''.'' # str_int (?o4 a) = str_int (?o3 b) @ CHR ''.'' # str_int (?o4 b)"
    by simp_all
  from dot_split_unique [OF e3 str_int_no_dot str_int_no_dot]
  have s3: "str_int (?o3 a) = str_int (?o3 b)" and s4: "str_int (?o4 a) = str_int (?o4 b)"
    by simp_all
  have o1: "?o1 a = ?o1 b" using s1 by (rule str_int_inj)
  have o2: "?o2 a = ?o2 b" using s2 by (rule str_int_inj)
  have o3: "?o3 a = ?o3 b" using s3 by (rule str_int_inj)
  have o4: "?o4 a = ?o4 b" using s4 by (rule str_int_inj)
  have "a div 256 div 256 = b div 256 div 256" using o1 o2 by (metis div_mult_mod_eq)
  then have "a div 256 = b div 256" using o3 by (metis div_mult_mod_eq)
  then show "a = b" using o4 by (metis div_mult_mod_eq)
qed

section \<open>The hosts of a range\<close>

text \<open>
  The hosts of a range are in ascending order without repetition, and so are their texts.
  An IPv4 range has two more addresses than hosts unless the prefix is 31 or 32 bits long;
  an IPv6 range has one more unless the prefix is 127 or 128 bits long.
\<close>

lemma hosts_cases:
  obtains (one) "hosts net = [network_address net]"
  | (v4) a b where "hosts net = map IPv4Address [a ..< b]"
  | (v6) a b where "hosts net = map (\<lambda>x. IPv6Address x None) [a ..< b]"
proof (cases "network_address net")
  case (IPv4Address ip)
  show thesis
  proof (cases "prefixlen net = 32")
    case True
    with IPv4Address have "hosts net = [network_address net]" by (simp add: hosts_def)
    then show thesis by (rule one)
  next
    case False
    with IPv4Address have "\<exists>a b. hosts net = map IPv4Address [a ..< b]"
      by (cases "prefixlen net = 31") (simp_all add: hosts_def Let_def del: upt_Suc, blast+)
    then show thesis using v4 by blast
  qed
next
  case (IPv6Address ip scope_id)
  show thesis
  proof (cases "prefixlen net = 128")
    case True
    with IPv6Address have "hosts net = [network_address net]" by (simp add: hosts_def)
    then show thesis by (rule one)
  next
    case False
    with IPv6Address have "\<exists>a b. hosts net = map (\<lambda>x. IPv6Address x None) [a ..< b]"
      by (cases "prefixlen net = 127") (simp_all add: hosts_def Let_def del: upt_Suc, blast+)
    then show thesis using v6 by blast
  qed
qed

lemma distinct_hosts: "distinct (hosts net)"
  by (cases net rule: hosts_cases) (simp_all add: distinct_map inj_on_def)

lemma sorted_hosts: "sorted (map int_of_ip (hosts net))"
proof (cases net rule: hosts_cases)
  case one
  then show ?thesis by simp
next
  case (v4 a b)
  have "map int_of_ip (map IPv4Address [a ..< b]) = [a ..< b]"
    by (simp add: map_idI)
  with v4 show ?thesis by simp
next
  case (v6 a b)
  have "map int_of_ip (map (\<lambda>x. IPv6Address x None) [a ..< b]) = [a ..< b]"
    by (simp add: map_idI)
  with v6 show ?thesis by simp
qed

lemma distinct_host_strs: "distinct (map str_ip (hosts net))"
proof (cases net rule: hosts_cases)
  case one
  then show ?thesis by simp
next
  case (v4 a b)
  have "distinct (map str_v4 [a ..< b])"
    by (simp add: distinct_map inj_on_def str_v4_inj)
  with v4 show ?thesis by (simp add: comp_def)
next
  case (v6 a b)
  have "distinct (map str_v6 [a ..< b])"
    by (simp add: distinct_map inj_on_def str_v6_inj)
  with v6 show ?thesis by (simp add: comp_def)
qed

lemma length_hosts_le: "length (hosts net) \<le> num_addresses net"
  by (cases "network_address net")
    (simp_all add: hosts_def num_addresses_def broadcast_address_def Let_def del: upt_Suc)

lemma length_hosts_IPv4:
  assumes "network_address net = IPv4Address ip" and "prefixlen net \<le> 30"
  shows "length (hosts net) + 2 = num_addresses net"
proof -
  from assms(2) have "(2::nat) ^ 2 \<le> 2 ^ (32 - prefixlen net)"
    by (intro power_increasing) simp_all
  then have "(4::nat) \<le> 2 ^ (32 - prefixlen net)" by simp
  with assms show ?thesis
    by (simp add: hosts_def num_addresses_def broadcast_address_def Let_def del: upt_Suc)
qed

lemma length_hosts_IPv6:
  assumes "network_address net = IPv6Address ip scope_id" and "prefixlen net \<le> 126"
  shows "length (hosts net) + 1 = num_addresses net"
proof -
  from assms(2) have "(2::nat) ^ 2 \<le> 2 ^ (128 - prefixlen net)"
    by (intro power_increasing) simp_all
  then have "(4::nat) \<le> 2 ^ (128 - prefixlen net)" by simp
  with assms show ?thesis
    by (simp add: hosts_def num_addresses_def broadcast_address_def Let_def del: upt_Suc)
qed

section \<open>Properties of schedules\<close>

lemma completions_handled:
  "completions sch = handled sch @ completions (dropWhile (\<lambda>e. e \<noteq> StopCalled) sch)"
proof (induction sch)
  case Nil
  show ?case by simp
next
  case (Cons e sch)
  then show ?case by (cases e) simp_all
qed

lemma handled_no_stop: "StopCalled \<notin> set sch \<Longrightarrow> handled sch = completions sch"
proof (induction sch)
  case Nil
  show ?case by simp
next
  case (Cons e sch)
  then show ?case by (cases e) simp_all
qed

lemma handled_append_stop:
  "StopCalled \<notin> set pre \<Longrightarrow> handled (pre @ StopCalled # post) = completions pre"
proof (induction pre)
  case Nil
  show ?case by simp
next
  case (Cons e pre)
  then show ?case by (cases e) simp_all
qed

lemma set_handled: "set (handled sch) \<subseteq> set (completions sch)"
proof -
  have "set (handled sch) \<subseteq>
      set (handled sch @ completions (dropWhile (\<lambda>e. e \<noteq> StopCalled) sch))"
    by simp
  then show ?thesis by (simp only: completions_handled [symmetric])
qed

lemma distinct_handled: "distinct (completions sch) \<Longrightarrow> distinct (handled sch)"
  by (subst (asm) completions_handled) simp

lemma length_handled: "length (handled sch) \<le> length (completions sch)"
proof -
  have "length (handled sch) \<le>
      length (handled sch @ completions (dropWhile (\<lambda>e. e \<noteq> StopCalled) sch))"
    by simp
  then show ?thesis by (simp only: completions_handled [symmetric])
qed

lemma order_mset: "as_completed_order n sch \<Longrightarrow> mset (completions sch) = mset [0..<n]"
  unfolding as_completed_order_def by (metis mset_sort)

lemma order_distinct: "as_completed_order n sch \<Longrightarrow> distinct (completions sch)"
  using order_mset [of n sch] by (metis distinct_upt mset_eq_imp_distinct_iff)

lemma order_set: "as_completed_order n sch \<Longrightarrow> set (completions sch) = {0..<n}"
  using order_mset [of n sch] by (metis mset_eq_setD set_upt)

lemma order_length: "as_completed_order n sch \<Longrightarrow> length (completions sch) = n"
  using order_mset [of n sch] by (metis mset_eq_length length_upt diff_zero)

lemma order_handled_bound:
  assumes "as_completed_order n sch"
  shows "list_all (\<lambda>future. future < n) (handled sch)"
proof -
  have "set (handled sch) \<subseteq> {0..<n}"
    using set_handled [of sch] order_set [OF assms] by simp
  then show ?thesis by (auto simp: list_all_iff)
qed

section \<open>What the loop of \<open>run\<close> computes\<close>

text \<open>
  Once the flag is cleared the loop changes nothing more. While it is set, the loop folds
  the results of the futures it is handed before the first call of \<open>stop\<close>, in that
  order, up to the first probe that raised.
\<close>

lemma stop_stopped: "\<not> is_running self \<Longrightarrow> stop self = self"
  by (simp add: stop_def)

lemma loop_stopped:
  "\<not> is_running (thread st) \<Longrightarrow> as_completed_loop result total_ips sch st = st"
proof (induction sch arbitrary: st)
  case Nil
  show ?case by simp
next
  case (Cons e sch)
  show ?case
  proof (cases e)
    case (Yielded future)
    with Cons.prems show ?thesis by simp
  next
    case StopCalled
    from Cons.prems have "st\<lparr>thread := stop (thread st)\<rparr> = st"
      by (simp add: stop_stopped)
    with Cons StopCalled show ?thesis by simp
  qed
qed

lemma result_signals_Nil: "result_signals result total_ips processed [] = []"
  by (simp add: result_signals_def)

lemma result_signals_Cons:
  "result_signals result total_ips processed (ip # ips) =
     [update_ip_status ip (result ip = Inr True), update_progress (processed + 1) total_ips] @
     result_signals result total_ips (processed + 1) ips"
  by (simp add: result_signals_def)

lemma loop_running:
  assumes "is_running (thread st)"
    and "list_all (\<lambda>future. future < length (future_to_ip st)) (handled sch)"
  shows "as_completed_loop result total_ips sch st =
     st\<lparr>thread := (if raised result (future_to_ip st) (handled sch) = None \<and> StopCalled \<in> set sch
                   then stop (thread st) else thread st),
        active_ips := active_ips st @
          filter (\<lambda>ip. result ip = Inr True)
            (map (nth (future_to_ip st)) (folded result (future_to_ip st) (handled sch))),
        processed_ips := processed_ips st + length (folded result (future_to_ip st) (handled sch)),
        emitted := emitted st @
          result_signals result total_ips (processed_ips st)
            (map (nth (future_to_ip st)) (folded result (future_to_ip st) (handled sch))),
        caught := (if raised result (future_to_ip st) (handled sch) = None then caught st
                   else raised result (future_to_ip st) (handled sch))\<rparr>"
  using assms
proof (induction sch arbitrary: st)
  case Nil
  show ?case by (simp add: result_signals_Nil)
next
  case (Cons e sch)
  show ?case
  proof (cases e)
    case StopCalled
    have "\<not> is_running (thread (st\<lparr>thread := stop (thread st)\<rparr>))"
      by (simp add: stop_def)
    then have "as_completed_loop result total_ips sch (st\<lparr>thread := stop (thread st)\<rparr>)
        = st\<lparr>thread := stop (thread st)\<rparr>"
      by (rule loop_stopped)
    with StopCalled show ?thesis by (simp add: result_signals_Nil)
  next
    case (Yielded future)
    let ?ip = "future_to_ip st ! future"
    from Cons.prems Yielded have lt: "future < length (future_to_ip st)" by simp
    show ?thesis
    proof (cases "result ?ip")
      case (Inl err)
      with Yielded Cons.prems(1) lt show ?thesis
        by (simp add: Let_def result_signals_Nil)
    next
      case (Inr is_active)
      let ?st = "st\<lparr>active_ips := (if is_active then active_ips st @ [?ip] else active_ips st),
                    processed_ips := processed_ips st + 1,
                    emitted := emitted st @
                      [update_ip_status ?ip is_active,
                       update_progress (processed_ips st + 1) total_ips]\<rparr>"
      from Cons.prems Yielded
      have rest: "list_all (\<lambda>future. future < length (future_to_ip ?st)) (handled sch)"
        by simp
      have run: "is_running (thread ?st)" using Cons.prems(1) by simp
      have step: "as_completed_loop result total_ips (e # sch) st
          = as_completed_loop result total_ips sch ?st"
        using Yielded Cons.prems(1) lt Inr by (simp add: Let_def)
      show ?thesis
        unfolding step Cons.IH [OF run rest]
        using Yielded Inr by (simp add: result_signals_Cons)
    qed
  qed
qed

lemma loop_after_stop:
  "as_completed_loop result total_ips (pre @ StopCalled # post) st =
   as_completed_loop result total_ips (pre @ [StopCalled]) st"
proof (induction pre arbitrary: st)
  case Nil
  have "\<not> is_running (thread (st\<lparr>thread := stop (thread st)\<rparr>))"
    by (simp add: stop_def)
  then show ?case by (simp add: loop_stopped)
next
  case (Cons e pre)
  show ?case
  proof (cases e)
    case StopCalled
    then show ?thesis by (simp add: Cons.IH)
  next
    case (Yielded future)
    then show ?thesis by (simp add: Cons.IH Let_def split: sum.split)
  qed
qed

lemma folded_sublist: "set (folded result ips fs) \<subseteq> set fs"
  by (induction fs) (auto split: sum.splits)

lemma distinct_folded: "distinct fs \<Longrightarrow> distinct (folded result ips fs)"
proof (induction fs)
  case Nil
  show ?case by simp
next
  case (Cons f fs)
  then show ?case using folded_sublist [of result ips fs] by (auto split: sum.splits)
qed

lemma length_folded: "length (folded result ips fs) \<le> length fs"
  by (induction fs) (auto split: sum.splits)

lemma folded_all:
  "list_all (\<lambda>future. \<not> isl (result (ips ! future))) fs \<Longrightarrow>
     folded result ips fs = fs \<and> raised result ips fs = None"
  by (induction fs) (auto split: sum.splits)

lemma raised_None_folded: "raised result ips fs = None \<Longrightarrow> folded result ips fs = fs"
  by (induction fs) (auto split: sum.splits)

lemma no_scan_complete_in_results:
  "filter is_scan_complete (result_signals result total_ips processed ips) = []"
  by (induction ips arbitrary: processed) (simp_all add: result_signals_Nil result_signals_Cons)

lemma status_ips_append: "status_ips (es @ fs) = status_ips es @ status_ips fs"
  by (induction es rule: status_ips.induct) simp_all

lemma status_ips_results:
  "status_ips (result_signals result total_ips processed ips) = ips"
  by (induction ips arbitrary: processed) (simp_all add: result_signals_Nil result_signals_Cons)

lemma mset_map_nth:
  assumes "mset fs = mset [0..<length xs]"
  shows "mset (map (nth xs) fs) = mset xs"
proof -
  have "mset (map (nth xs) fs) = image_mset (nth xs) (mset fs)" by simp
  also have "\<dots> = image_mset (nth xs) (mset [0..<length xs])" by (simp only: assms)
  also have "\<dots> = mset (map (nth xs) [0..<length xs])" by simp
  also have "\<dots> = mset xs" by (simp only: map_nth)
  finally show ?thesis .
qed

lemma distinct_map_nth:
  assumes "distinct xs" and "distinct fs" and "list_all (\<lambda>f. f < length xs) fs"
  shows "distinct (map (nth xs) fs)"
proof -
  have "\<forall>i\<in>set fs. i < length xs" using assms(3) by (simp add: list_all_iff)
  with assms(1) have "inj_on (nth xs) (set fs)" by (rule inj_on_nth)
  with assms(2) show ?thesis by (simp add: distinct_map)
qed

lemma set_map_nth:
  assumes "list_all (\<lambda>f. f < length xs) fs"
  shows "set (map (nth xs) fs) \<subseteq> set xs"
  using assms by (auto simp: list_all_iff)

section \<open>\<open>run\<close> and \<open>scan_network\<close> in closed form\<close>

lemma run_invalid:
  "ip_network (network self) = Inl e \<Longrightarrow>
   run subprocess_run print start_time end_time sch self =
     \<lparr>thread = self, future_to_ip = [], active_ips = [], processed_ips = 0,
      emitted = [], caught = Some e, escaped = print (scan_failed e)\<rparr>"
  by (simp add: run_def except_Exception_def)

lemma run_started:
  assumes net: "ip_network (network self) = Inr net"
    and workers: "0 < max_workers self"
    and running: "is_running self"
    and order: "as_completed_order (length (hosts net)) sch"
  shows "run subprocess_run print start_time end_time sch self =
     (let result = ping subprocess_run print;
          ips = map str_ip (hosts net);
          futures = folded result ips (handled sch);
          err = raised result ips (handled sch);
          live = filter (\<lambda>ip. result ip = Inr True) (map (nth ips) futures)
      in \<lparr>thread = (if err = None \<and> StopCalled \<in> set sch then stop self else self),
          future_to_ip = ips,
          active_ips = live,
          processed_ips = length futures,
          emitted =
            result_signals result (num_addresses net) 0 (map (nth ips) futures) @
            (if err = None
             then (if StopCalled \<in> set sch then []
                   else [update_progress (num_addresses net) (num_addresses net)]) @
                  [scan_complete live (end_time - start_time)]
             else []),
          caught = err,
          escaped = (case err of None \<Rightarrow> None | Some e \<Rightarrow> print (scan_failed e))\<rparr>)"
proof -
  let ?st1 = "\<lparr>thread = self, future_to_ip = map str_ip (hosts net), active_ips = [],
                processed_ips = 0, emitted = [], caught = None, escaped = None\<rparr>"
  have r: "is_running (thread ?st1)" using running by simp
  have b: "list_all (\<lambda>future. future < length (future_to_ip ?st1)) (handled sch)"
    using order_handled_bound [OF order] by simp
  note loop = loop_running [OF r b, of "ping subprocess_run print" "num_addresses net"]
  show ?thesis
  proof (cases "raised (ping subprocess_run print) (map str_ip (hosts net)) (handled sch)")
    case None
    with net workers running show ?thesis
      by (simp add: run_def Let_def loop stop_def)
  next
    case (Some e)
    with net workers running show ?thesis
      by (simp add: run_def Let_def loop except_Exception_def)
  qed
qed

lemma run_not_running:
  assumes net: "ip_network (network self) = Inr net"
    and workers: "0 < max_workers self"
    and stopped: "\<not> is_running self"
  shows "run subprocess_run print start_time end_time sch self =
     \<lparr>thread = self, future_to_ip = map str_ip (hosts net), active_ips = [],
      processed_ips = 0, emitted = [scan_complete [] (end_time - start_time)],
      caught = None, escaped = None\<rparr>"
proof -
  let ?st1 = "\<lparr>thread = self, future_to_ip = map str_ip (hosts net), active_ips = [],
                processed_ips = 0, emitted = [], caught = None, escaped = None\<rparr>"
  have "\<not> is_running (thread ?st1)" using stopped by simp
  then have "as_completed_loop (ping subprocess_run print) (num_addresses net) sch ?st1 = ?st1"
    by (rule loop_stopped)
  then show ?thesis
    using net workers stopped by (simp add: run_def Let_def)
qed

lemma run_no_workers:
  assumes net: "ip_network (network self) = Inr net"
    and workers: "\<not> 0 < max_workers self"
  shows "run subprocess_run print start_time end_time sch self =
     \<lparr>thread = self, future_to_ip = [], active_ips = [], processed_ips = 0,
      emitted = [], caught = Some ValueError, escaped = print (scan_failed ValueError)\<rparr>"
  using net workers by (simp add: run_def except_Exception_def)

lemma no_probe_raises:
  assumes "list_all (\<lambda>ip. \<not> isl (result ip)) ips"
    and "list_all (\<lambda>future. future < length ips) fs"
  shows "folded result ips fs = fs" and "raised result ips fs = None"
proof -
  have "list_all (\<lambda>future. \<not> isl (result (ips ! future))) fs"
    using assms by (auto simp: list_all_iff)
  then have "folded result ips fs = fs \<and> raised result ips fs = None"
    by (rule folded_all)
  then show "folded result ips fs = fs" and "raised result ips fs = None" by simp_all
qed

lemma ping_stdout_accepts:
  "ping subprocess_run (\<lambda>message. None) ip =
     Inr (subprocess_run [''ping'', ''-n'', ''1'', ''-w'', ''500'', ip] = CompletedProcess 0)"
  by (simp add: ping_def split: run_outcome.split)

lemma scan_results_active:
  "fst (scan_results (\<lambda>message. None) hs total_ips
          (enumerate k (map (\<lambda>ip. Inr (alive ip)) (drop k hs))) (active, processed, out))
     = None \<and>
   fst (snd (scan_results (\<lambda>message. None) hs total_ips
               (enumerate k (map (\<lambda>ip. Inr (alive ip)) (drop k hs))) (active, processed, out)))
     = active @ map str_ip (filter alive (drop k hs))"
proof (induction "length hs - k" arbitrary: k active processed out)
  case 0
  then show ?case by simp
next
  case (Suc n)
  then have k: "k < length hs" by simp
  then have d: "drop k hs = hs ! k # drop (Suc k) hs"
    by (simp add: Cons_nth_drop_Suc)
  from Suc(2) have n: "n = length hs - Suc k" by simp
  show ?case
    unfolding d using k by (simp add: Let_def print_line_def Suc(1) [OF n])
qed

lemma scan_network_returned:
  assumes "ip_network net_text = Inr net" and "0 < workers"
  shows "returned (scan_network subprocess_run (\<lambda>message. None) net_text workers)
     = Inr (filter (\<lambda>ip. ping subprocess_run (\<lambda>message. None) ip = Inr True)
              (map str_ip (hosts net)))"
proof -
  let ?ping = "ping subprocess_run (\<lambda>message. None)"
  let ?alive = "\<lambda>ip. ?ping (str_ip ip) = Inr True"
  let ?res = "scan_results (\<lambda>message. None) (hosts net) (num_addresses net)
                (enumerate 0 (map (\<lambda>ip. Inr (?alive ip)) (hosts net)))
                ([], 0, [scan_started (num_addresses net)])"
  have p: "map (?ping \<circ> str_ip) (hosts net) = map (\<lambda>ip. Inr (?alive ip)) (hosts net)"
    by (simp add: ping_stdout_accepts)
  from scan_results_active [of "hosts net" "num_addresses net" 0 ?alive "[]" 0
      "[scan_started (num_addresses net)]"]
  have "fst ?res = None"
    and "fst (snd ?res) = filter (\<lambda>ip. ?ping ip = Inr True) (map str_ip (hosts net))"
    by (simp_all add: filter_map comp_def)
  with assms show ?thesis
    unfolding scan_network_def Let_def
    by (auto simp: print_line_def p split: prod.splits option.splits)
qed

section \<open>Ranges worked out\<close>

text \<open>
  The ranges \<open>10.0.0.0/30\<close>, \<open>192.168.1.0/24\<close> (the default of the tool),
  \<open>10.0.0.7/32\<close> and \<open>2001:db8::/126\<close>, and the text \<open>not-an-ip\<close>, evaluated step
  by step.
\<close>

lemmas parse_defs =
  ip_network_def IPv4Network_def IPv6Network_def ip_int_from_string_def parse_octet_def
  make_netmask_def prefix_from_prefix_string_def isdigit_def digits_def int_of_str_def
  digit_value_def split_scope_id_def ip6_int_from_string_def parse_hextets_def
  parse_hextet_def int_of_hex_def hex_digit_value_def hex_digits_def Let_def

lemma network_10_0_0_0_30:
  "ip_network ''10.0.0.0/30'' =
     Inr \<lparr>network_address = IPv4Address 167772160, prefixlen = 30\<rparr>"
  by (simp add: parse_defs)

lemma network_192_168_1_0_24:
  "ip_network ''192.168.1.0/24'' =
     Inr \<lparr>network_address = IPv4Address 3232235776, prefixlen = 24\<rparr>"
  by (simp add: parse_defs)

lemma network_10_0_0_7_32:
  "ip_network ''10.0.0.7/32'' =
     Inr \<lparr>network_address = IPv4Address 167772167, prefixlen = 32\<rparr>"
  by (simp add: parse_defs)

lemma network_not_an_ip: "ip_network ''not-an-ip'' = Inl ValueError"
  by (simp add: parse_defs)

lemma network_2001_db8_126:
  "ip_network ''2001:db8::/126'' =
     Inr \<lparr>network_address = IPv6Address 42540766411282592856903984951653826560 None,
          prefixlen = 126\<rparr>"
  by (simp add: parse_defs upt_rec)

lemma hosts_10_0_0_0_30:
  "hosts \<lparr>network_address = IPv4Address 167772160, prefixlen = 30\<rparr> =
     [IPv4Address 167772161, IPv4Address 167772162]"
  by (simp add: hosts_def broadcast_address_def upt_rec)

lemma host_strs_10_0_0_0_30:
  "map str_ip (hosts \<lparr>network_address = IPv4Address 167772160, prefixlen = 30\<rparr>)
     = [''10.0.0.1'', ''10.0.0.2'']"
  by (simp add: hosts_10_0_0_0_30 str_v4_def str_int.simps digits_def)

lemma num_addresses_10_0_0_0_30:
  "num_addresses \<lparr>network_address = IPv4Address 167772160, prefixlen = 30\<rparr> = 4"
  by (simp add: num_addresses_def broadcast_address_def)

lemma host_strs_10_0_0_7_32:
  "map str_ip (hosts \<lparr>network_address = IPv4Address 167772167, prefixlen = 32\<rparr>)
     = [''10.0.0.7'']"
  by (simp add: hosts_def str_v4_def str_int.simps digits_def)

lemma num_addresses_10_0_0_7_32:
  "num_addresses \<lparr>network_address = IPv4Address 167772167, prefixlen = 32\<rparr> = 1"
  by (simp add: num_addresses_def broadcast_address_def)

lemma hextets_of_8:
  "hextets_of 8 ip =
     [ip div 2 ^ 16 div 2 ^ 16 div 2 ^ 16 div 2 ^ 16 div 2 ^ 16 div 2 ^ 16 div 2 ^ 16,
      ip div 2 ^ 16 div 2 ^ 16 div 2 ^ 16 div 2 ^ 16 div 2 ^ 16 div 2 ^ 16 mod 2 ^ 16,
      ip div 2 ^ 16 div 2 ^ 16 div 2 ^ 16 div 2 ^ 16 div 2 ^ 16 mod 2 ^ 16,
      ip div 2 ^ 16 div 2 ^ 16 div 2 ^ 16 div 2 ^ 16 mod 2 ^ 16,
      ip div 2 ^ 16 div 2 ^ 16 div 2 ^ 16 mod 2 ^ 16,
      ip div 2 ^ 16 div 2 ^ 16 mod 2 ^ 16,
      ip div 2 ^ 16 mod 2 ^ 16,
      ip mod 2 ^ 16]"
proof -
  have "(8::nat) = Suc (Suc (Suc (Suc (Suc (Suc (Suc (Suc 0)))))))" by simp
  then show ?thesis by (simp only: hextets_of.simps append.simps)
qed

lemma hosts_2001_db8_126:
  "hosts \<lparr>network_address = IPv6Address 42540766411282592856903984951653826560 None,
          prefixlen = 126\<rparr> =
     [IPv6Address 42540766411282592856903984951653826561 None,
      IPv6Address 42540766411282592856903984951653826562 None,
      IPv6Address 42540766411282592856903984951653826563 None]"
  by (simp add: hosts_def broadcast_address_def upt_rec)

lemma host_strs_2001_db8_126:
  "map str_ip (hosts \<lparr>network_address = IPv6Address 42540766411282592856903984951653826560 None,
                      prefixlen = 126\<rparr>)
     = [''2001:db8::1'', ''2001:db8::2'', ''2001:db8::3'']"
  by (simp add: hosts_2001_db8_126 str_v6_def hextets_of_8 str_hex.simps hex_digits_def
      compress_hextets_def enumerate_eq_zip upt_rec Let_def)

lemma num_addresses_2001_db8_126:
  "num_addresses \<lparr>network_address = IPv6Address 42540766411282592856903984951653826560 None,
                  prefixlen = 126\<rparr> = 4"
  by (simp add: num_addresses_def broadcast_address_def)

lemmas run_defs =
  run_def ScanThread_init_def stop_def ping_def Let_def except_Exception_def
  network_10_0_0_0_30 host_strs_10_0_0_0_30 num_addresses_10_0_0_0_30

section \<open>The sweep and the total it reports\<close>

lemma uncancelled_sweep_results:
  assumes net: "ip_network (network self) = Inr net"
    and workers: "0 < max_workers self"
    and running: "is_running self"
    and order: "as_completed_order (length (hosts net)) sch"
    and uncancelled: "StopCalled \<notin> set sch"
    and returns: "list_all (\<lambda>ip. \<not> isl (ping subprocess_run print ip)) (map str_ip (hosts net))"
  shows "processed_ips (run subprocess_run print start_time end_time sch self)
           = length (hosts net)"
    and "mset (status_ips (emitted (run subprocess_run print start_time end_time sch self)))
           = mset (map str_ip (hosts net))"
    and "distinct (status_ips (emitted (run subprocess_run print start_time end_time sch self)))"
proof -
  let ?r = "run subprocess_run print start_time end_time sch self"
  let ?ips = "map str_ip (hosts net)"
  have h: "handled sch = completions sch" using uncancelled by (rule handled_no_stop)
  have b: "list_all (\<lambda>future. future < length ?ips) (completions sch)"
    using order_handled_bound [OF order] by (simp add: h)
  note f = no_probe_raises [OF returns b]
  note r = run_started [OF net workers running order, of subprocess_run print start_time end_time]
  show "processed_ips ?r = length (hosts net)"
    by (simp add: r h f Let_def order_length [OF order])
  have s: "status_ips (emitted ?r) = map (nth ?ips) (completions sch)"
    using uncancelled by (simp add: r h f Let_def status_ips_append status_ips_results)
  have m: "mset (completions sch) = mset [0..<length ?ips]"
    using order_mset [OF order] by simp
  show "mset (status_ips (emitted ?r)) = mset ?ips"
    unfolding s using m by (rule mset_map_nth)
  then show "distinct (status_ips (emitted ?r))"
    using distinct_host_strs [of net] by (metis mset_eq_imp_distinct_iff)
qed

lemma uncancelled_sweep_short_of_total:
  assumes net: "ip_network (network self) = Inr net"
    and workers: "0 < max_workers self"
    and running: "is_running self"
    and order: "as_completed_order (length (hosts net)) sch"
    and uncancelled: "StopCalled \<notin> set sch"
    and returns: "list_all (\<lambda>ip. \<not> isl (ping subprocess_run print ip)) (map str_ip (hosts net))"
    and family: "network_address net = IPv4Address ip"
    and prefix: "prefixlen net \<le> 30"
  shows "processed_ips (run subprocess_run print start_time end_time sch self) + 2
           = num_addresses net"
  using uncancelled_sweep_results(1) [OF net workers running order uncancelled returns]
    length_hosts_IPv4 [OF family prefix] by simp

lemma uncancelled_sweep_short_of_total_IPv6:
  assumes net: "ip_network (network self) = Inr net"
    and workers: "0 < max_workers self"
    and running: "is_running self"
    and order: "as_completed_order (length (hosts net)) sch"
    and uncancelled: "StopCalled \<notin> set sch"
    and returns: "list_all (\<lambda>ip. \<not> isl (ping subprocess_run print ip)) (map str_ip (hosts net))"
    and family: "network_address net = IPv6Address ip scope_id"
    and prefix: "prefixlen net \<le> 126"
  shows "processed_ips (run subprocess_run print start_time end_time sch self) + 1
           = num_addresses net"
  using uncancelled_sweep_results(1) [OF net workers running order uncancelled returns]
    length_hosts_IPv6 [OF family prefix] by simp

text \<open>
  C1. For every uncancelled sweep over a valid range, the processed count reaches the total
  address count, every host yields exactly one result signal, and the addresses of the
  result signals are the hosts of the range.

  The second and third part hold when no probe raises (\<open>uncancelled_sweep_results\<close>):
  \<open>processed_ips\<close> ends at the number of hosts and the \<open>update_ip_status\<close> signals name
  each host once. The first does not: \<open>total_ips\<close> is \<open>network.num_addresses\<close>, which
  also counts the addresses that \<open>hosts()\<close> leaves out, so \<open>processed_ips\<close> ends two
  below \<open>total_ips\<close> for every IPv4 prefix of at most 30 bits and one below it for every
  IPv6 prefix of at most 126 bits (\<open>uncancelled_sweep_short_of_total\<close>,
  \<open>uncancelled_sweep_short_of_total_IPv6\<close>). Below, the sweep of \<open>10.0.0.0/30\<close> with
  both hosts silent: two hosts, two results, \<open>processed_ips = 2\<close>, and every progress
  signal carries the total 4; the last progress signal before the end,
  \<open>update_progress 4 4\<close>, is the one \<open>run\<close> emits after the loop to fill the bar, with
  no probe behind it.
\<close>

theorem processed_ips_ends_below_total_ips:
  "run (\<lambda>argv. CompletedProcess 1) (\<lambda>message. None) 1 3 [Yielded 0, Yielded 1]
       (ScanThread_init ''10.0.0.0/30'' 2) =
     \<lparr>thread = \<lparr>network = ''10.0.0.0/30'', max_workers = 2, is_running = True\<rparr>,
      future_to_ip = [''10.0.0.1'', ''10.0.0.2''],
      active_ips = [],
      processed_ips = 2,
      emitted = [update_ip_status ''10.0.0.1'' False, update_progress 1 4,
                 update_ip_status ''10.0.0.2'' False, update_progress 2 4,
                 update_progress 4 4, scan_complete [] 2],
      caught = None,
      escaped = None\<rparr>"
  by (simp add: run_defs)

text \<open>
  C2. The address count used by the sweep is the number of usable hosts of the prefix (a /30
  yields 2, a /24 yields 254), and the hosts are enumerated in ascending order without
  duplicates.

  The enumeration is as stated (\<open>sorted_hosts\<close>, \<open>distinct_hosts\<close>, and
  \<open>distinct_host_strs\<close> for the texts). The count is not: both sweeps take
  \<open>network.num_addresses\<close>, 4 for the /30 and 256 for the /24, two more than the hosts
  they probe (\<open>length_hosts_IPv4\<close>). \<open>scan_network\<close> prints a progress line when
  \<open>processed_ips == total_ips\<close>; with that total the test never holds for such a range,
  and the sweep of the /30 prints no progress line at all.
\<close>

theorem total_ips_counts_network_and_broadcast:
  "map_sum id (\<lambda>net. (num_addresses net, length (hosts net))) (ip_network ''10.0.0.0/30'')
     = Inr (4, 2) \<and>
   map_sum id (\<lambda>net. (num_addresses net, length (hosts net))) (ip_network ''192.168.1.0/24'')
     = Inr (256, 254) \<and>
   stdout (scan_network (\<lambda>argv. CompletedProcess 1) (\<lambda>message. None) ''10.0.0.0/30'' 50)
     = [scan_started 4, scan_finished 0]"
  by (simp add: network_10_0_0_0_30 network_192_168_1_0_24 num_addresses_def hosts_def
      broadcast_address_def scan_network_def ping_def print_line_def Let_def upt_rec)

section \<open>Cancellation\<close>

text \<open>
  C3, as the specification states it: once the flag is set no new probe is issued, but every
  probe already issued may finish and its result is still folded into the state. Both
  parts fail. In the sweep \<open>r\<close> of \<open>10.0.0.0/30\<close> with both hosts alive, \<open>stop\<close> is
  called after the loop has folded the first result; the probe of \<open>10.0.0.2\<close> was
  submitted before the loop began and finishes, alive, and the loop leaves at its test of
  the flag without counting it, adding it to the live list or reporting it. In the sweep
  \<open>r'\<close> the flag is cleared before \<open>run\<close> begins, and \<open>run\<close> still submits both
  probes.
\<close>

theorem stop_neither_gates_probes_nor_keeps_results:
  "(let r = run (\<lambda>argv. CompletedProcess 0) (\<lambda>message. None) 1 3
              [Yielded 0, StopCalled, Yielded 1] (ScanThread_init ''10.0.0.0/30'' 2);
        r' = run (\<lambda>argv. CompletedProcess 0) (\<lambda>message. None) 1 3
               [Yielded 0, Yielded 1] (stop (ScanThread_init ''10.0.0.0/30'' 2))
    in future_to_ip r = [''10.0.0.1'', ''10.0.0.2''] \<and>
       ping (\<lambda>argv. CompletedProcess 0) (\<lambda>message. None) ''10.0.0.2'' = Inr True \<and>
       processed_ips r = 1 \<and>
       active_ips r = [''10.0.0.1''] \<and>
       status_ips (emitted r) = [''10.0.0.1''] \<and>
       future_to_ip r' = [''10.0.0.1'', ''10.0.0.2''] \<and>
       processed_ips r' = 0)"
  by (simp add: run_defs)

text \<open>
  C3, amended. Every host's probe is submitted before the first result is read, whether the
  flag is set or cleared. The loop tests the flag once for each future \<open>as_completed\<close>
  hands it, before it reads the result, and the first test that finds the flag cleared ends
  the folding: the state holds exactly the results of the futures that were handed to the
  loop before \<open>stop\<close> was called (none, if \<open>stop\<close> was called before \<open>run\<close> began),
  each counted in \<open>processed_ips\<close>, in \<open>active_ips\<close> if alive, and reported. The result
  of every other probe is dropped, whether the probe finished before the call or after it,
  and the only signal that follows is \<open>scan_complete\<close>. (If one of the probes folded
  raised, the folding ends there and the handler of \<open>run\<close> takes over: \<open>err\<close> below.)

  Here \<open>pre\<close> lists the futures whose test of the flag comes before the first call of
  \<open>stop\<close>, and \<open>post\<close> everything after that call.
\<close>

theorem stop_ends_folding:
  assumes net: "ip_network (network self) = Inr net"
    and workers: "0 < max_workers self"
    and order: "as_completed_order (length (hosts net)) (pre @ StopCalled # post)"
    and first: "StopCalled \<notin> set pre"
  shows "(let result = ping subprocess_run print;
              ips = map str_ip (hosts net);
              tested = (if is_running self then completions pre else []);
              futures = folded result ips tested;
              err = raised result ips tested;
              live = filter (\<lambda>ip. result ip = Inr True) (map (nth ips) futures)
          in run subprocess_run print start_time end_time (pre @ StopCalled # post) self =
               \<lparr>thread = (if err = None then stop self else self),
                future_to_ip = ips,
                active_ips = live,
                processed_ips = length futures,
                emitted =
                  result_signals result (num_addresses net) 0 (map (nth ips) futures) @
                  (if err = None then [scan_complete live (end_time - start_time)] else []),
                caught = err,
                escaped = (case err of None \<Rightarrow> None | Some e \<Rightarrow> print (scan_failed e))\<rparr>)"
proof (cases "is_running self")
  case True
  then show ?thesis
    using handled_append_stop [OF first, of post]
    by (simp add: run_started [OF net workers True order] Let_def)
next
  case False
  then show ?thesis
    by (simp add: run_not_running [OF net workers False] Let_def stop_stopped result_signals_Nil)
qed

text \<open>
  C3, an instance: \<open>10.0.0.0/30\<close>, both hosts alive, the loop is handed the second host's
  future first, and \<open>stop\<close> is called before it is handed the first host's.
\<close>

theorem stop_ends_folding_witness:
  "run (\<lambda>argv. CompletedProcess 0) (\<lambda>message. None) 1 3
       ([Yielded 1] @ StopCalled # [Yielded 0]) (ScanThread_init ''10.0.0.0/30'' 2) =
     \<lparr>thread = \<lparr>network = ''10.0.0.0/30'', max_workers = 2, is_running = False\<rparr>,
      future_to_ip = [''10.0.0.1'', ''10.0.0.2''],
      active_ips = [''10.0.0.2''],
      processed_ips = 1,
      emitted = [update_ip_status ''10.0.0.2'' True, update_progress 1 4,
                 scan_complete [''10.0.0.2''] 2],
      caught = None,
      escaped = None\<rparr>"
proof -
  let ?self = "ScanThread_init ''10.0.0.0/30'' 2"
  let ?net = "\<lparr>network_address = IPv4Address 167772160, prefixlen = 30\<rparr>"
  have net: "ip_network (network ?self) = Inr ?net"
    by (simp add: ScanThread_init_def network_10_0_0_0_30)
  have workers: "0 < max_workers ?self" by (simp add: ScanThread_init_def)
  have order: "as_completed_order (length (hosts ?net)) ([Yielded 1] @ StopCalled # [Yielded 0])"
    by (simp add: hosts_10_0_0_0_30 as_completed_order_def upt_rec)
  have first: "StopCalled \<notin> set [Yielded 1]" by simp
  show ?thesis
    using stop_ends_folding [OF net workers order first,
        of "\<lambda>argv. CompletedProcess 0" "\<lambda>message. None" 1 3]
    by (simp add: host_strs_10_0_0_0_30 num_addresses_10_0_0_0_30 ping_def result_signals_def
        ScanThread_init_def stop_def Let_def)
qed

text \<open>
  C9. Calling \<open>stop\<close> several times has the effect of calling it once: the thread is in the
  same state, and a sweep during which \<open>stop\<close> is called again, at once (\<open>k\<close> more
  times) or at any later moments, emits the same signals and ends in the same state as the
  sweep with the one call.
\<close>

theorem stop_idempotent:
  "stop (stop self) = stop self \<and>
   run subprocess_run print start_time end_time
       (pre @ StopCalled # replicate k StopCalled @ post) self
     = run subprocess_run print start_time end_time (pre @ StopCalled # post) self \<and>
   run subprocess_run print start_time end_time (pre @ StopCalled # post) self
     = run subprocess_run print start_time end_time
         (pre @ StopCalled # filter (\<lambda>e. e \<noteq> StopCalled) post) self"
proof (intro conjI)
  show "stop (stop self) = stop self" by (simp add: stop_def)
next
  have eq: "as_completed_loop result total_ips (pre @ StopCalled # replicate k StopCalled @ post) st
      = as_completed_loop result total_ips (pre @ StopCalled # post) st"
    for result total_ips st
    by (simp only: loop_after_stop [of result total_ips pre "replicate k StopCalled @ post" st]
        loop_after_stop [of result total_ips pre post st])
  show "run subprocess_run print start_time end_time
          (pre @ StopCalled # replicate k StopCalled @ post) self
      = run subprocess_run print start_time end_time (pre @ StopCalled # post) self"
    unfolding run_def eq ..
next
  have eq: "as_completed_loop result total_ips (pre @ StopCalled # post) st
      = as_completed_loop result total_ips
          (pre @ StopCalled # filter (\<lambda>e. e \<noteq> StopCalled) post) st"
    for result total_ips st
    by (simp only: loop_after_stop [of result total_ips pre post st]
        loop_after_stop [of result total_ips pre "filter (\<lambda>e. e \<noteq> StopCalled) post" st])
  show "run subprocess_run print start_time end_time (pre @ StopCalled # post) self
      = run subprocess_run print start_time end_time
          (pre @ StopCalled # filter (\<lambda>e. e \<noteq> StopCalled) post) self"
    unfolding run_def eq ..
qed

section \<open>The order of the signals\<close>

text \<open>
  C4, as the specification states it: for every completed probe the sweep emits a progress
  signal and then the result signal of the address, in that order. It fails: \<open>run\<close> emits
  \<open>update_ip_status\<close> first and \<open>update_progress\<close> after it. In the sweep of the single
  host \<open>10.0.0.7/32\<close> the result signal is the first signal of all.
\<close>

theorem result_signal_comes_first:
  "emitted (run (\<lambda>argv. CompletedProcess 0) (\<lambda>message. None) 1 3 [Yielded 0]
             (ScanThread_init ''10.0.0.7/32'' 1))
     = [update_ip_status ''10.0.0.7'' True, update_progress 1 1,
        update_progress 1 1, scan_complete [''10.0.0.7''] 2]"
  by (simp add: run_def ScanThread_init_def stop_def ping_def Let_def
      network_10_0_0_7_32 host_strs_10_0_0_7_32 num_addresses_10_0_0_7_32)

text \<open>
  C4, amended. For every result the loop handles, the last one included, the sweep emits
  the result signal \<open>(address, alive)\<close> and then the progress signal
  \<open>(processed, total)\<close>, in that order, \<open>processed\<close> counting that result; after these
  pairs come one more progress signal \<open>(total, total)\<close> if \<open>stop\<close> was not called, and
  \<open>scan_complete\<close>. The results the loop handles are those of the futures it is handed
  before the first call of \<open>stop\<close>, up to the first probe that raised; only if a probe
  raised is an exception caught in \<open>run\<close>, and then the pairs are all that is emitted.
\<close>

theorem result_then_progress_per_probe:
  assumes net: "ip_network (network self) = Inr net"
    and workers: "0 < max_workers self"
    and running: "is_running self"
    and order: "as_completed_order (length (hosts net)) sch"
  shows "(let r = run subprocess_run print start_time end_time sch self;
              ips = map (nth (future_to_ip r))
                      (folded (ping subprocess_run print) (future_to_ip r) (handled sch))
          in processed_ips r = length ips \<and>
             emitted r =
               concat (map (\<lambda>(k, ip). [update_ip_status ip (ping subprocess_run print ip = Inr True),
                                        update_progress (k + 1) (num_addresses net)])
                         (enumerate 0 ips)) @
               (if caught r = None
                then (if StopCalled \<in> set sch then []
                      else [update_progress (num_addresses net) (num_addresses net)]) @
                     [scan_complete (active_ips r) (end_time - start_time)]
                else []))"
  by (simp add: run_started [OF net workers running order] Let_def result_signals_def)

text \<open>
  C4, an instance: \<open>10.0.0.0/30\<close>, both hosts silent, the loop is handed the second
  host's future first.
\<close>

theorem result_then_progress_per_probe_witness:
  "emitted (run (\<lambda>argv. CompletedProcess 1) (\<lambda>message. None) 1 3 [Yielded 1, Yielded 0]
             (ScanThread_init ''10.0.0.0/30'' 2))
     = [update_ip_status ''10.0.0.2'' False, update_progress 1 4,
        update_ip_status ''10.0.0.1'' False, update_progress 2 4,
        update_progress 4 4, scan_complete [] 2]"
proof -
  let ?self = "ScanThread_init ''10.0.0.0/30'' 2"
  let ?net = "\<lparr>network_address = IPv4Address 167772160, prefixlen = 30\<rparr>"
  let ?r = "run (\<lambda>argv. CompletedProcess 1) (\<lambda>message. None) 1 3 [Yielded 1, Yielded 0] ?self"
  have net: "ip_network (network ?self) = Inr ?net"
    by (simp add: ScanThread_init_def network_10_0_0_0_30)
  have workers: "0 < max_workers ?self" by (simp add: ScanThread_init_def)
  have running: "is_running ?self" by (simp add: ScanThread_init_def)
  have order: "as_completed_order (length (hosts ?net)) [Yielded 1, Yielded 0]"
    by (simp add: hosts_10_0_0_0_30 as_completed_order_def upt_rec)
  have r: "future_to_ip ?r = [''10.0.0.1'', ''10.0.0.2'']"
    and a: "active_ips ?r = []"
    and c: "caught ?r = None"
    by (simp_all add: run_defs)
  show ?thesis
    using result_then_progress_per_probe [OF net workers running order,
        of "\<lambda>argv. CompletedProcess 1" "\<lambda>message. None" 1 3]
    unfolding Let_def r a c
    by (simp add: num_addresses_10_0_0_0_30 ping_def)
qed

text \<open>
  C7, as the specification states it: every sweep emits exactly one completion event
  carrying the aggregate outcome (the live addresses with the completed and the total
  count), and that event is the last. It fails in two ways. \<open>scan_complete\<close> carries the
  live list and the elapsed time only: the sweeps \<open>r1\<close> (run to its end, two results) and
  \<open>r2\<close> (\<open>stop\<close> called before the first result, none) of \<open>10.0.0.0/30\<close> with both
  hosts silent end in the same event. And a sweep in which a probe raises emits none: in
  \<open>r3\<close> the call of the system's \<open>ping\<close> fails and standard output cannot take the
  message that \<open>ping\<close> prints about it, the exception of \<open>print\<close> leaves \<open>ping\<close>, comes
  out of \<open>future.result()\<close> and ends \<open>run\<close> in its handler.
\<close>

theorem scan_complete_without_counts_or_missing:
  "(let r1 = run (\<lambda>argv. CompletedProcess 1) (\<lambda>message. None) 1 3
               [Yielded 0, Yielded 1] (ScanThread_init ''10.0.0.0/30'' 2);
        r2 = run (\<lambda>argv. CompletedProcess 1) (\<lambda>message. None) 1 3
               [StopCalled, Yielded 0, Yielded 1] (ScanThread_init ''10.0.0.0/30'' 2);
        r3 = run (\<lambda>argv. OtherException) (\<lambda>message. Some UnicodeEncodeError) 1 3
               [Yielded 0, Yielded 1] (ScanThread_init ''10.0.0.0/30'' 2)
    in processed_ips r1 = 2 \<and> processed_ips r2 = 0 \<and>
       filter is_scan_complete (emitted r1) = [scan_complete [] 2] \<and>
       filter is_scan_complete (emitted r2) = [scan_complete [] 2] \<and>
       emitted r3 = [] \<and> caught r3 = Some UnicodeEncodeError \<and>
       escaped r3 = Some UnicodeEncodeError)"
  by (simp add: run_defs)

text \<open>
  C7, amended. Every sweep of a valid range with at least one worker in which no probe
  raises emits exactly one completion signal, which carries the live list and the elapsed
  time (and neither the completed nor the total count) and is the last signal, whether the
  sweep runs to its end or \<open>stop\<close> is called on the way, or was called before it began.
\<close>

theorem scan_complete_once_and_last:
  assumes net: "ip_network (network self) = Inr net"
    and workers: "0 < max_workers self"
    and order: "as_completed_order (length (hosts net)) sch"
    and returns: "list_all (\<lambda>ip. \<not> isl (ping subprocess_run print ip)) (map str_ip (hosts net))"
  shows "(let r = run subprocess_run print start_time end_time sch self
          in caught r = None \<and>
             filter is_scan_complete (emitted r)
               = [scan_complete (active_ips r) (end_time - start_time)] \<and>
             last (emitted r) = scan_complete (active_ips r) (end_time - start_time))"
proof (cases "is_running self")
  case True
  have b: "list_all (\<lambda>future. future < length (map str_ip (hosts net))) (handled sch)"
    using order_handled_bound [OF order] by simp
  note f = no_probe_raises [OF returns b]
  show ?thesis
    by (simp add: run_started [OF net workers True order] f Let_def no_scan_complete_in_results)
next
  case False
  show ?thesis
    by (simp add: run_not_running [OF net workers False] Let_def)
qed

text \<open>
  C7, an instance: \<open>10.0.0.0/30\<close>, both hosts alive, \<open>stop\<close> called after the first
  result.
\<close>

theorem scan_complete_once_and_last_witness:
  "(let r = run (\<lambda>argv. CompletedProcess 0) (\<lambda>message. None) 1 3
              [Yielded 1, StopCalled, Yielded 0] (ScanThread_init ''10.0.0.0/30'' 2)
    in caught r = None \<and>
       filter is_scan_complete (emitted r) = [scan_complete [''10.0.0.2''] 2] \<and>
       last (emitted r) = scan_complete [''10.0.0.2''] 2)"
proof -
  let ?self = "ScanThread_init ''10.0.0.0/30'' 2"
  let ?net = "\<lparr>network_address = IPv4Address 167772160, prefixlen = 30\<rparr>"
  let ?sch = "[Yielded 1, StopCalled, Yielded 0]"
  have net: "ip_network (network ?self) = Inr ?net"
    by (simp add: ScanThread_init_def network_10_0_0_0_30)
  have workers: "0 < max_workers ?self" by (simp add: ScanThread_init_def)
  have order: "as_completed_order (length (hosts ?net)) ?sch"
    by (simp add: hosts_10_0_0_0_30 as_completed_order_def upt_rec)
  have returns: "list_all (\<lambda>ip. \<not> isl (ping (\<lambda>argv. CompletedProcess 0) (\<lambda>message. None) ip))
      (map str_ip (hosts ?net))"
    by (simp add: host_strs_10_0_0_0_30 ping_def)
  have a: "active_ips (run (\<lambda>argv. CompletedProcess 0) (\<lambda>message. None) 1 3 ?sch ?self)
      = [''10.0.0.2'']"
    by (simp add: run_defs)
  show ?thesis
    using scan_complete_once_and_last [OF net workers order returns, of 1 3]
    unfolding Let_def a by simp
qed

section \<open>The probe\<close>

text \<open>
  C5, as the specification states it: a network failure (unreachable, timeout, permission)
  is turned into \<open>False\<close> and never raises, and malformed address text is reported to the
  caller as an error of its own. Both parts fail. \<open>ping\<close> does not look at its argument:
  for the text \<open>not-an-ip\<close>, which is no address, the answer is \<open>False\<close> when the
  system's \<open>ping\<close> exits with a code other than 0 and when the call raises, as for a
  host that does not reply. And when the call raises anything but a timeout (permission
  denied, say), \<open>ping\<close> prints a message before it answers, and an exception of that
  \<open>print\<close> (here a standard output that cannot encode the message) leaves \<open>ping\<close>.
\<close>

theorem ping_neither_tells_malformed_apart_nor_never_raises:
  "ip_network ''not-an-ip'' = Inl ValueError \<and>
   ping (\<lambda>argv. CompletedProcess 1) (\<lambda>message. None) ''not-an-ip'' = Inr False \<and>
   ping (\<lambda>argv. OtherException) (\<lambda>message. None) ''not-an-ip'' = Inr False \<and>
   ping (\<lambda>argv. OtherException) (\<lambda>message. Some UnicodeEncodeError) ''10.0.0.1''
     = Inl UnicodeEncodeError"
  by (simp add: ping_def network_not_an_ip)

text \<open>
  C5, amended. For every argument, malformed address text included, and whatever the call
  of the system's \<open>ping\<close> and standard output do: the probe answers \<open>True\<close> exactly when
  the process ends with return code 0; it answers \<open>False\<close> exactly when the process ends
  with another return code (unreachable), when the call times out, and when the call raises
  another exception (permission) and the message about it is printed; and it raises, the
  exception \<open>e\<close> of \<open>print\<close>, exactly when the call raises such an exception and
  printing the message raises \<open>e\<close>. No input is reported as an error of its own.
\<close>

theorem ping_outcomes:
  "(let outcome = subprocess_run [''ping'', ''-n'', ''1'', ''-w'', ''500'', ip]
    in (ping subprocess_run print ip = Inr True) = (outcome = CompletedProcess 0) \<and>
       (ping subprocess_run print ip = Inr False) =
         ((\<exists>returncode. outcome = CompletedProcess returncode \<and> returncode \<noteq> 0) \<or>
          outcome = TimeoutExpired \<or>
          (outcome = OtherException \<and> print (ping_failed ip) = None)) \<and>
       (ping subprocess_run print ip = Inl e) =
         (outcome = OtherException \<and> print (ping_failed ip) = Some e))"
  by (auto simp: ping_def Let_def split: run_outcome.splits option.splits)

section \<open>An invalid range\<close>

text \<open>
  C6. A range expression that \<open>ip_network\<close> refuses (neither an IPv4 nor an IPv6 range)
  stops each of the three entry points before any work: \<open>scan_network\<close> raises the
  \<open>ValueError\<close> with nothing submitted and nothing printed; \<open>start_scan\<close> shows it in a
  message box and neither makes a thread nor touches the buttons; and \<open>run\<close>, were it
  reached, catches it and prints it, emits no signal (no progress, no result, no
  completion), submits no probe and leaves the thread as it was.
\<close>

theorem invalid_range_rejected_before_any_work:
  assumes "ip_network net_text = Inl e" and "network self = net_text"
  shows "run subprocess_run print start_time end_time sch self =
           \<lparr>thread = self, future_to_ip = [], active_ips = [], processed_ips = 0,
            emitted = [], caught = Some e, escaped = print (scan_failed e)\<rparr> \<and>
         scan_network subprocess_run print net_text workers =
           \<lparr>returned = Inl e, submitted = [], stdout = []\<rparr> \<and>
         start_scan net_text workers g = g\<lparr>message_box := Some e\<rparr>"
  using assms by (simp add: run_invalid scan_network_def start_scan_def)

text \<open>C6, an instance: the text \<open>not-an-ip\<close>.\<close>

theorem invalid_range_rejected_before_any_work_witness:
  "run (\<lambda>argv. CompletedProcess 0) (\<lambda>message. None) 1 3 [Yielded 0]
       (ScanThread_init ''not-an-ip'' 50) =
     \<lparr>thread = ScanThread_init ''not-an-ip'' 50, future_to_ip = [], active_ips = [],
      processed_ips = 0, emitted = [], caught = Some ValueError, escaped = None\<rparr> \<and>
   scan_network (\<lambda>argv. CompletedProcess 0) (\<lambda>message. None) ''not-an-ip'' 50 =
     \<lparr>returned = Inl ValueError, submitted = [], stdout = []\<rparr> \<and>
   start_scan ''not-an-ip'' 50
       \<lparr>scan_thread = None, scan_button_enabled = True, stop_button_enabled = False,
        message_box = None\<rparr> =
     \<lparr>scan_thread = None, scan_button_enabled = True, stop_button_enabled = False,
      message_box = Some ValueError\<rparr>"
proof -
  have n: "network (ScanThread_init ''not-an-ip'' 50) = ''not-an-ip''"
    by (simp add: ScanThread_init_def)
  show ?thesis
    using invalid_range_rejected_before_any_work [OF network_not_an_ip n,
        of "\<lambda>argv. CompletedProcess 0" "\<lambda>message. None" 1 3 "[Yielded 0]" 50
          "\<lparr>scan_thread = None, scan_button_enabled = True, stop_button_enabled = False,
            message_box = None\<rparr>"]
    by simp
qed

section \<open>The live addresses\<close>

lemmas run_defs_IPv6 =
  run_def ScanThread_init_def stop_def ping_def Let_def except_Exception_def
  network_2001_db8_126 host_strs_2001_db8_126 num_addresses_2001_db8_126

lemma run_active_handled:
  assumes net: "ip_network (network self) = Inr net"
    and order: "as_completed_order (length (hosts net)) sch"
  shows "\<exists>fs. distinct fs \<and> list_all (\<lambda>f. f < length (hosts net)) fs \<and>
           length fs \<le> length (hosts net) \<and>
           active_ips (run subprocess_run print start_time end_time sch self) =
             filter (\<lambda>ip. ping subprocess_run print ip = Inr True)
               (map (nth (map str_ip (hosts net))) fs)"
proof (cases "0 < max_workers self \<and> is_running self")
  case True
  let ?fs = "folded (ping subprocess_run print) (map str_ip (hosts net)) (handled sch)"
  have sub: "set ?fs \<subseteq> set (handled sch)" by (rule folded_sublist)
  have "distinct (handled sch)"
    using order_distinct [OF order] by (rule distinct_handled)
  then have "distinct ?fs" by (rule distinct_folded)
  moreover have "list_all (\<lambda>f. f < length (hosts net)) (handled sch)"
    using order by (rule order_handled_bound)
  then have "list_all (\<lambda>f. f < length (hosts net)) ?fs"
    using sub by (auto simp: list_all_iff)
  moreover have "length ?fs \<le> length (handled sch)" by (rule length_folded)
  then have "length ?fs \<le> length (hosts net)"
    using length_handled [of sch] order_length [OF order] by simp
  moreover have "active_ips (run subprocess_run print start_time end_time sch self) =
      filter (\<lambda>ip. ping subprocess_run print ip = Inr True)
        (map (nth (map str_ip (hosts net))) ?fs)"
    using True by (simp add: run_started [OF net _ _ order] Let_def)
  ultimately show ?thesis by blast
next
  case False
  have "active_ips (run subprocess_run print start_time end_time sch self) = []"
  proof (cases "0 < max_workers self")
    case True
    with False have "\<not> is_running self" by simp
    with net True show ?thesis by (simp add: run_not_running)
  next
    case False
    with net show ?thesis by (simp add: run_no_workers)
  qed
  then have "distinct ([]::nat list) \<and> list_all (\<lambda>f. f < length (hosts net)) [] \<and>
      length ([]::nat list) \<le> length (hosts net) \<and>
      active_ips (run subprocess_run print start_time end_time sch self) =
        filter (\<lambda>ip. ping subprocess_run print ip = Inr True)
          (map (nth (map str_ip (hosts net))) [])"
    by simp
  then show ?thesis by blast
qed

text \<open>
  C8, as the specification states it: for a valid range and a fixed outcome of every probe,
  the sweep of the window, not cancelled, and the sweep of the command line compute the
  same set of live addresses. It fails when standard output refuses the lines of
  \<open>scan_network\<close>: for \<open>10.0.0.0/30\<close> with both hosts alive, the first \<open>print\<close> of
  \<open>scan_network\<close> raises and the function ends with that exception, before it submits a
  probe, while \<open>run\<close>, which prints nothing in this sweep, finds both hosts.
\<close>

theorem scan_network_stops_where_run_goes_on:
  "(let b = scan_network (\<lambda>argv. CompletedProcess 0) (\<lambda>message. Some UnicodeEncodeError)
              ''10.0.0.0/30'' 50;
        r = run (\<lambda>argv. CompletedProcess 0) (\<lambda>message. Some UnicodeEncodeError) 1 3
              [Yielded 0, Yielded 1] (ScanThread_init ''10.0.0.0/30'' 2)
    in returned b = Inl UnicodeEncodeError \<and> submitted b = [] \<and>
       active_ips r = [''10.0.0.1'', ''10.0.0.2''] \<and>
       emitted r = [update_ip_status ''10.0.0.1'' True, update_progress 1 4,
                    update_ip_status ''10.0.0.2'' True, update_progress 2 4,
                    update_progress 4 4, scan_complete [''10.0.0.1'', ''10.0.0.2''] 2])"
  by (simp add: run_defs scan_network_def print_line_def)

text \<open>
  C8, amended. For a valid range, at least one worker, a fixed outcome of every probe and a
  standard output that accepts every line, the sweep of the window, with \<open>stop\<close> never
  called, and the sweep of the command line find the same live addresses: the same set, and
  each address as often (once) in both lists.
\<close>

theorem run_and_scan_network_same_live_addresses:
  assumes net: "ip_network (network self) = Inr net"
    and workers: "0 < max_workers self"
    and running: "is_running self"
    and order: "as_completed_order (length (hosts net)) sch"
    and uncancelled: "StopCalled \<notin> set sch"
    and batch_workers: "0 < workers"
    and accepts: "\<And>message. print message = None"
  shows "\<exists>live. returned (scan_network subprocess_run print (network self) workers) = Inr live \<and>
           set (active_ips (run subprocess_run print start_time end_time sch self)) = set live \<and>
           mset (active_ips (run subprocess_run print start_time end_time sch self)) = mset live"
proof -
  let ?ips = "map str_ip (hosts net)"
  let ?alive = "\<lambda>ip. ping subprocess_run print ip = Inr True"
  let ?live = "filter ?alive ?ips"
  from accepts have print: "print = (\<lambda>message. None)" by (simp add: fun_eq_iff)
  have b: "returned (scan_network subprocess_run print (network self) workers) = Inr ?live"
    unfolding print using net batch_workers by (rule scan_network_returned)
  have h: "handled sch = completions sch" using uncancelled by (rule handled_no_stop)
  have returns: "list_all (\<lambda>ip. \<not> isl (ping subprocess_run print ip)) ?ips"
    unfolding print by (simp add: list_all_iff ping_stdout_accepts)
  have bound: "list_all (\<lambda>future. future < length ?ips) (completions sch)"
    using order_handled_bound [OF order] by (simp add: h)
  note f = no_probe_raises [OF returns bound]
  have a: "active_ips (run subprocess_run print start_time end_time sch self)
      = filter ?alive (map (nth ?ips) (completions sch))"
    by (simp add: run_started [OF net workers running order] h f Let_def)
  have "mset (completions sch) = mset [0..<length ?ips]"
    using order_mset [OF order] by simp
  then have "mset (map (nth ?ips) (completions sch)) = mset ?ips"
    by (rule mset_map_nth)
  then have m: "mset (active_ips (run subprocess_run print start_time end_time sch self))
      = mset ?live"
    unfolding a by (simp only: mset_filter)
  then have "set (active_ips (run subprocess_run print start_time end_time sch self)) = set ?live"
    by (rule mset_eq_setD)
  with b m show ?thesis by blast
qed

text \<open>
  C8, an instance: \<open>2001:db8::/126\<close>, all three hosts alive; in the window's sweep the
  loop is handed the third host's future first, so the two lists differ in order only.
\<close>

theorem run_and_scan_network_same_live_addresses_witness:
  "returned (scan_network (\<lambda>argv. CompletedProcess 0) (\<lambda>message. None) ''2001:db8::/126'' 50)
     = Inr [''2001:db8::1'', ''2001:db8::2'', ''2001:db8::3''] \<and>
   active_ips (run (\<lambda>argv. CompletedProcess 0) (\<lambda>message. None) 1 3
                 [Yielded 2, Yielded 0, Yielded 1] (ScanThread_init ''2001:db8::/126'' 2))
     = [''2001:db8::3'', ''2001:db8::1'', ''2001:db8::2''] \<and>
   (\<exists>live. returned (scan_network (\<lambda>argv. CompletedProcess 0) (\<lambda>message. None)
                      (network (ScanThread_init ''2001:db8::/126'' 2)) 50) = Inr live \<and>
      set (active_ips (run (\<lambda>argv. CompletedProcess 0) (\<lambda>message. None) 1 3
                         [Yielded 2, Yielded 0, Yielded 1]
                         (ScanThread_init ''2001:db8::/126'' 2))) = set live \<and>
      mset (active_ips (run (\<lambda>argv. CompletedProcess 0) (\<lambda>message. None) 1 3
                          [Yielded 2, Yielded 0, Yielded 1]
                          (ScanThread_init ''2001:db8::/126'' 2))) = mset live)"
proof -
  let ?self = "ScanThread_init ''2001:db8::/126'' 2"
  let ?net = "\<lparr>network_address = IPv6Address 42540766411282592856903984951653826560 None,
               prefixlen = 126\<rparr>"
  let ?sch = "[Yielded 2, Yielded 0, Yielded 1]"
  have net: "ip_network (network ?self) = Inr ?net"
    by (simp add: ScanThread_init_def network_2001_db8_126)
  have workers: "0 < max_workers ?self" by (simp add: ScanThread_init_def)
  have running: "is_running ?self" by (simp add: ScanThread_init_def)
  have order: "as_completed_order (length (hosts ?net)) ?sch"
    by (simp add: hosts_2001_db8_126 as_completed_order_def upt_rec)
  have uncancelled: "StopCalled \<notin> set ?sch" by simp
  have batch_workers: "0 < (50::int)" by simp
  have accepts: "(\<lambda>message::line. None::error option) message = None" for message by simp
  have b: "returned (scan_network (\<lambda>argv. CompletedProcess 0) (\<lambda>message. None)
                       ''2001:db8::/126'' 50)
      = Inr [''2001:db8::1'', ''2001:db8::2'', ''2001:db8::3'']"
    by (simp add: scan_network_returned [OF network_2001_db8_126 batch_workers]
        host_strs_2001_db8_126 ping_def)
  have a: "active_ips (run (\<lambda>argv. CompletedProcess 0) (\<lambda>message. None) 1 3 ?sch ?self)
      = [''2001:db8::3'', ''2001:db8::1'', ''2001:db8::2'']"
    by (simp add: run_defs_IPv6)
  note t = run_and_scan_network_same_live_addresses
      [OF net workers running order uncancelled batch_workers accepts,
        of "\<lambda>argv. CompletedProcess 0" 1 3]
  from b a t show ?thesis by (intro conjI)
qed

text \<open>
  C10. In every sweep of a valid range, IPv4 or IPv6, whether \<open>stop\<close> is called or not
  and whatever the probes and standard output do, the live list is no longer than the total
  address count (nor than the number of hosts), holds no address twice, and every entry is
  the text of a host of the range.
\<close>

theorem active_ips_distinct_hosts:
  assumes net: "ip_network (network self) = Inr net"
    and order: "as_completed_order (length (hosts net)) sch"
  shows "(let live = active_ips (run subprocess_run print start_time end_time sch self)
          in length live \<le> num_addresses net \<and>
             length live \<le> length (hosts net) \<and>
             distinct live \<and>
             set live \<subseteq> set (map str_ip (hosts net)))"
proof -
  let ?ips = "map str_ip (hosts net)"
  let ?alive = "\<lambda>ip. ping subprocess_run print ip = Inr True"
  from run_active_handled [OF net order, of subprocess_run print start_time end_time]
  obtain fs where fs: "distinct fs" "list_all (\<lambda>f. f < length (hosts net)) fs"
      "length fs \<le> length (hosts net)"
    and a: "active_ips (run subprocess_run print start_time end_time sch self)
        = filter ?alive (map (nth ?ips) fs)"
    by blast
  have b: "list_all (\<lambda>f. f < length ?ips) fs" using fs(2) by simp
  have "length (filter ?alive (map (nth ?ips) fs)) \<le> length (map (nth ?ips) fs)"
    by (rule length_filter_le)
  also have "\<dots> = length fs" by simp
  also have "\<dots> \<le> length (hosts net)" by (rule fs(3))
  finally have len: "length (filter ?alive (map (nth ?ips) fs)) \<le> length (hosts net)" .
  have d: "distinct (map (nth ?ips) fs)"
    using distinct_host_strs fs(1) b by (rule distinct_map_nth)
  have s: "set (map (nth ?ips) fs) \<subseteq> set ?ips"
    using b by (rule set_map_nth)
  have s': "set (filter ?alive (map (nth ?ips) fs)) \<subseteq> set ?ips"
    using s by auto
  show ?thesis
    unfolding Let_def a
    using len length_hosts_le [of net] d s' by (simp del: set_map set_filter)
qed

text \<open>
  C10, an instance: \<open>2001:db8::/126\<close>, all three hosts alive, \<open>stop\<close> called after the
  second result.
\<close>

theorem active_ips_distinct_hosts_witness:
  "(let live = active_ips (run (\<lambda>argv. CompletedProcess 0) (\<lambda>message. None) 1 3
                             [Yielded 2, Yielded 0, StopCalled, Yielded 1]
                             (ScanThread_init ''2001:db8::/126'' 2))
    in live = [''2001:db8::3'', ''2001:db8::1''] \<and> length live \<le> 4 \<and> length live \<le> 3 \<and>
       distinct live \<and>
       set live \<subseteq> set [''2001:db8::1'', ''2001:db8::2'', ''2001:db8::3''])"
proof -
  let ?self = "ScanThread_init ''2001:db8::/126'' 2"
  let ?net = "\<lparr>network_address = IPv6Address 42540766411282592856903984951653826560 None,
               prefixlen = 126\<rparr>"
  let ?sch = "[Yielded 2, Yielded 0, StopCalled, Yielded 1]"
  have net: "ip_network (network ?self) = Inr ?net"
    by (simp add: ScanThread_init_def network_2001_db8_126)
  have order: "as_completed_order (length (hosts ?net)) ?sch"
    by (simp add: hosts_2001_db8_126 as_completed_order_def upt_rec)
  have a: "active_ips (run (\<lambda>argv. CompletedProcess 0) (\<lambda>message. None) 1 3 ?sch ?self)
      = [''2001:db8::3'', ''2001:db8::1'']"
    by (simp add: run_defs_IPv6)
  show ?thesis
    using active_ips_distinct_hosts [OF net order,
        of "\<lambda>argv. CompletedProcess 0" "\<lambda>message. None" 1 3]
    unfolding Let_def a host_strs_2001_db8_126 num_addresses_2001_db8_126 hosts_2001_db8_126
    by simp
qed

end
